theory Spec2Isabelle
  imports Main
begin

section \<open>The bitstream LZ77 decoder of main.go\<close>

text \<open>
  The development embeds \<^verbatim>\<open>decodeLZ77\<close> (main.go, lines 35 to 128) and the bit
  generation of \<^verbatim>\<open>generateBitStream\<close> (lines 130 to 144).

  A Go string is a sequence of bytes: \<^typ>\<open>string\<close>, a list of \<^typ>\<open>char\<close>. The three
  \<^verbatim>\<open>range\<close> loops of the decoder walk the runes of a field, but they only test a
  rune against \<^verbatim>\<open>'1'\<close>; the byte 0x31 is never part of a longer UTF-8 sequence, and the
  loop variable \<^verbatim>\<open>i\<close> is the byte index of the rune, so each loop is the same as a
  walk over the bytes with their indices.

  Go's \<^verbatim>\<open>int\<close> is modelled as \<^typ>\<open>int\<close> with the two's complement wrap-around of
  64 bits written out (\<open>wrap64\<close>) at every operation that involves a field width given
  by the caller or a value parsed from a field of such a width. Strings live in memory, so
  their lengths stay far below \<open>2 ^ 63\<close>: the cursor plus 1 or 8, the copy counter plus 1
  and the source index of a copy (which is compared with a string length before it is
  used) are computed exactly. A slice or an index out of range, and a negative shift
  count, panic in Go; the model returns \<open>Panic\<close> there.

  Memory is finite. Every function of the call takes \<open>maxLen\<close>, the length of the
  longest string that the machine running the call has memory for; the length of a Go
  string is an \<^verbatim>\<open>int\<close>, so no string is longer than \<open>2 ^ 63 - 1\<close> bytes whatever the
  memory (\<open>capacity\<close>). The statements below hold for every \<open>maxLen\<close>. The copy of a
  back-reference is the one place where a call can outgrow the memory: a token of
  \<open>1 + offsetBits + lengthBits\<close> bytes can ask for \<open>2 ^ lengthBits - 1\<close> bytes. When
  an append of line 116 or 117 would make the output or the search buffer longer than
  \<open>capacity maxLen\<close>, the program cannot go on (Go's runtime ends it, out of memory),
  and the model returns \<open>OutOfMemory\<close>. A literal adds one byte for nine bytes of
  bitstream, so the literal branch does not outgrow a memory that holds the bitstream; it
  carries no such check.
\<close>

subsection \<open>Integers, slices and indexing\<close>

definition wrap64 :: "int \<Rightarrow> int" where
  "wrap64 n = (n + 2 ^ 63) mod 2 ^ 64 - 2 ^ 63"

text \<open>
  \<^verbatim>\<open>1 << k\<close> at type \<^verbatim>\<open>int\<close> for a shift count \<open>k \<ge> 0\<close>: a count of 64 or more
  shifts the bit out, a count of 63 gives the least \<^verbatim>\<open>int\<close>. The callers treat
  \<open>k < 0\<close>, where Go panics.
\<close>

definition shl1 :: "int \<Rightarrow> int" where
  "shl1 k = (if 64 \<le> k then 0 else wrap64 (2 ^ nat k))"

text \<open>\<^verbatim>\<open>s[lo:hi]\<close> panics unless \<open>0 \<le> lo \<le> hi \<le> len(s)\<close>.\<close>

definition slice :: "string \<Rightarrow> int \<Rightarrow> int \<Rightarrow> string option" where
  "slice s lo hi =
     (if 0 \<le> lo \<and> lo \<le> hi \<and> hi \<le> int (length s)
      then Some (take (nat (hi - lo)) (drop (nat lo) s)) else None)"

text \<open>\<^verbatim>\<open>s[lo:]\<close> panics unless \<open>0 \<le> lo \<le> len(s)\<close>.\<close>

definition slice_from :: "string \<Rightarrow> int \<Rightarrow> string option" where
  "slice_from s lo =
     (if 0 \<le> lo \<and> lo \<le> int (length s) then Some (drop (nat lo) s) else None)"

subsection \<open>Results\<close>

text \<open>
  The three messages of \<^verbatim>\<open>fmt.Errorf\<close>, each with the cursor it prints:
  "unexpected end of stream at position", "incomplete literal at position" and
  "incomplete back-reference at position".
\<close>

datatype decode_error =
  UnexpectedEndOfStream int
  | IncompleteLiteral int
  | IncompleteBackReference int

text \<open>
  \<open>Returned out None\<close> is the return of \<^verbatim>\<open>(out, nil)\<close>, \<open>Returned out (Some e)\<close> the
  return of the output so far with an error, \<open>Panic\<close> a run-time panic (a slice, an
  index or a shift count out of range), \<open>OutOfMemory\<close> the end of the program when a
  string would outgrow the memory: the call returns nothing then.
\<close>

datatype outcome = Returned string "decode_error option" | Panic | OutOfMemory

text \<open>
  The variables of the call that the loop changes: the builder \<^verbatim>\<open>output\<close> (named
  \<open>output'\<close>, since \<open>output\<close> is a keyword of Isabelle), \<^verbatim>\<open>searchBuffer\<close> and
  \<^verbatim>\<open>position\<close>. \<open>Continue\<close> is a round that falls through to the condition of the
  loop or reaches it by \<^verbatim>\<open>continue\<close>; \<open>Done\<close> is a \<^verbatim>\<open>return\<close>, a panic or the
  end of the program inside the round.
\<close>

record state =
  output' :: string
  searchBuffer :: string
  position :: int

datatype step_result = Continue state | Done outcome

definition init_state :: state where
  "init_state = \<lparr>output' = [], searchBuffer = [], position = 0\<rparr>"

subsection \<open>Fields\<close>

text \<open>
  The loop \<^verbatim>\<open>for i, bit := range field { if bit == '1' { v += 1 << (msb - i) } }\<close>,
  with \<open>msb\<close> the constant 7 of a literal, \<^verbatim>\<open>offsetBits - 1\<close> or
  \<^verbatim>\<open>lengthBits - 1\<close>. The field has \<open>msb + 1\<close> bytes wherever the decoder runs the
  loop, so the shift count is never negative.
\<close>

fun bits_loop :: "int \<Rightarrow> int \<Rightarrow> string \<Rightarrow> int \<Rightarrow> int" where
  "bits_loop msb i [] v = v"
| "bits_loop msb i (b # rest) v =
     bits_loop msb (i + 1) rest
       (if b = CHR ''1'' then wrap64 (v + shl1 (msb - i)) else v)"

text \<open>
  The value of a field read as an unsigned big-endian integer, without machine arithmetic:
  the reference the loop above is compared with.
\<close>

fun binary_value :: "string \<Rightarrow> int" where
  "binary_value [] = 0"
| "binary_value (b # rest) = (if b = CHR ''1'' then 2 ^ length rest else 0) + binary_value rest"

text \<open>Lines 85 to 103: the two fields of a back-reference and the cursor after them.\<close>

definition parse_backref :: "string \<Rightarrow> int \<Rightarrow> int \<Rightarrow> int \<Rightarrow> (int \<times> int \<times> int) option" where
  "parse_backref bitStream offsetBits lengthBits p =
     (case slice bitStream p (wrap64 (p + offsetBits)) of
        None \<Rightarrow> None
      | Some offsetBitStr \<Rightarrow>
          (let p1 = wrap64 (p + offsetBits);
               offset = bits_loop (offsetBits - 1) 0 offsetBitStr 0
           in case slice bitStream p1 (wrap64 (p1 + lengthBits)) of
                None \<Rightarrow> None
              | Some lengthBitStr \<Rightarrow>
                  Some (offset, bits_loop (lengthBits - 1) 0 lengthBitStr 0,
                        wrap64 (p1 + lengthBits))))"

subsection \<open>The copy of a back-reference\<close>

text \<open>
  \<^verbatim>\<open>string(character)\<close> of line 117, for a byte: the UTF-8 form of the code point of
  that number, one byte below 128 and two bytes from 128 on.
\<close>

definition string_of_byte :: "char \<Rightarrow> string" where
  "string_of_byte c =
     (if (of_char c :: nat) < 128 then [c]
      else [char_of (192 + (of_char c :: nat) div 64), char_of (128 + (of_char c :: nat) mod 64)])"

text \<open>
  The longest string of a run: what the memory holds, and never more than the largest
  \<^verbatim>\<open>int\<close>.
\<close>

definition capacity :: "int \<Rightarrow> int" where
  "capacity maxLen = min maxLen (2 ^ 63 - 1)"

text \<open>
  Lines 111 to 118. \<open>i\<close> is the loop counter, \<open>out\<close> the output builder and \<open>sb\<close> the
  search buffer: a round appends the byte read to \<open>out\<close> (line 116) and its string to
  \<open>sb\<close> (line 117). \<open>Copied\<close> is the end of the loop, by its condition or by the
  \<^verbatim>\<open>break\<close> of line 113, with the two strings it has built; \<open>IndexOutOfRange\<close> is the
  panic of an index below 0; \<open>MemoryExhausted\<close> is an append that would make a string
  longer than \<open>capacity maxLen\<close>.
\<close>

datatype copy_result = Copied string string | IndexOutOfRange | MemoryExhausted

function copy_loop ::
  "int \<Rightarrow> int \<Rightarrow> int \<Rightarrow> int \<Rightarrow> string \<Rightarrow> string \<Rightarrow> copy_result" where
  "copy_loop maxLen startPos length' i out sb =
     (if i < length' then
        (if startPos + i \<ge> int (length sb) then Copied out sb
         else if startPos + i < 0 then IndexOutOfRange
         else if int (length (out @ [sb ! nat (startPos + i)])) > capacity maxLen
               \<or> int (length (sb @ string_of_byte (sb ! nat (startPos + i)))) > capacity maxLen
           then MemoryExhausted
         else copy_loop maxLen startPos length' (i + 1)
                (out @ [sb ! nat (startPos + i)])
                (sb @ string_of_byte (sb ! nat (startPos + i))))
      else Copied out sb)"
  by pat_completeness auto
termination
  by (relation "measure (\<lambda>(maxLen, startPos, length', i, out, sb). nat (length' - i))") auto

declare copy_loop.simps [simp del]

subsection \<open>The two tokens\<close>

text \<open>Lines 74 to 76, after the append of a literal.\<close>

definition trim_literal :: "int \<Rightarrow> string \<Rightarrow> string option" where
  "trim_literal offsetBits sb =
     (if offsetBits < 0 then None
      else if int (length sb) > shl1 offsetBits then slice_from sb 1
      else Some sb)"

text \<open>Lines 121 to 123, after the copy of a back-reference.\<close>

definition trim_backref :: "int \<Rightarrow> string \<Rightarrow> string option" where
  "trim_backref offsetBits sb =
     (if offsetBits < 0 then None
      else if int (length sb) > shl1 offsetBits
        then slice_from sb (wrap64 (int (length sb) - shl1 offsetBits))
      else Some sb)"

text \<open>Lines 51 to 77; the cursor of \<open>st\<close> is already past the flag.\<close>

definition literal_token :: "string \<Rightarrow> int \<Rightarrow> state \<Rightarrow> step_result" where
  "literal_token bitStream offsetBits st =
     (if position st + 8 > int (length bitStream)
      then Done (Returned (output' st) (Some (IncompleteLiteral (position st))))
      else case slice bitStream (position st) (position st + 8) of
        None \<Rightarrow> Done Panic
      | Some literalBits \<Rightarrow>
          (let charCode = bits_loop 7 0 literalBits 0;
               st1 = st\<lparr>position := position st + 8\<rparr>
           in if 32 \<le> charCode \<and> charCode \<le> 126
              then (case trim_literal offsetBits (searchBuffer st @ [char_of charCode]) of
                      None \<Rightarrow> Done Panic
                    | Some sb \<Rightarrow>
                        Continue (st1\<lparr>output' := output' st @ [char_of charCode],
                                      searchBuffer := sb\<rparr>))
              else Continue st1))"

text \<open>Lines 105 to 123, with the fields parsed and the cursor of \<open>st\<close> past them.\<close>

definition apply_backref :: "int \<Rightarrow> int \<Rightarrow> int \<Rightarrow> int \<Rightarrow> state \<Rightarrow> step_result" where
  "apply_backref maxLen offsetBits offset length' st =
     (if offset > int (length (searchBuffer st)) \<or> length' = 0 then Continue st
      else case copy_loop maxLen (wrap64 (int (length (searchBuffer st)) - offset)) length' 0
                  (output' st) (searchBuffer st) of
        IndexOutOfRange \<Rightarrow> Done Panic
      | MemoryExhausted \<Rightarrow> Done OutOfMemory
      | Copied out sb \<Rightarrow>
          (case trim_backref offsetBits sb of
             None \<Rightarrow> Done Panic
           | Some sb' \<Rightarrow> Continue (st\<lparr>output' := out, searchBuffer := sb'\<rparr>)))"

text \<open>Lines 80 to 123; the cursor of \<open>st\<close> is already past the flag.\<close>

definition backref_token :: "int \<Rightarrow> string \<Rightarrow> int \<Rightarrow> int \<Rightarrow> state \<Rightarrow> step_result" where
  "backref_token maxLen bitStream offsetBits lengthBits st =
     (if wrap64 (wrap64 (position st + offsetBits) + lengthBits) > int (length bitStream)
      then Done (Returned (output' st) (Some (IncompleteBackReference (position st))))
      else case parse_backref bitStream offsetBits lengthBits (position st) of
        None \<Rightarrow> Done Panic
      | Some (offset, length', p) \<Rightarrow>
          apply_backref maxLen offsetBits offset length' (st\<lparr>position := p\<rparr>))"

subsection \<open>The scan\<close>

text \<open>One round of the loop of line 40, lines 41 to 124.\<close>

definition step :: "int \<Rightarrow> string \<Rightarrow> int \<Rightarrow> int \<Rightarrow> state \<Rightarrow> step_result" where
  "step maxLen bitStream offsetBits lengthBits st =
     (if position st + 1 > int (length bitStream)
      then Done (Returned (output' st) (Some (UnexpectedEndOfStream (position st))))
      else case slice bitStream (position st) (position st + 1) of
        None \<Rightarrow> Done Panic
      | Some flag \<Rightarrow>
          (let st1 = st\<lparr>position := position st + 1\<rparr>
           in if flag = ''0'' then literal_token bitStream offsetBits st1
              else if flag = ''1'' then backref_token maxLen bitStream offsetBits lengthBits st1
              else Continue st1))"

text \<open>
  A round that goes on has moved the cursor forward: the loop of line 40 ends.
\<close>

lemma slice_bounds:
  "slice s lo hi = Some r \<Longrightarrow> 0 \<le> lo \<and> lo \<le> hi \<and> hi \<le> int (length s)"
  by (simp add: slice_def split: if_splits)

lemma parse_backref_cursor:
  assumes "parse_backref bitStream offsetBits lengthBits p = Some (offset, length', q)"
  shows "p \<le> q \<and> q \<le> int (length bitStream)"
proof -
  from assms obtain a b where
    a: "slice bitStream p (wrap64 (p + offsetBits)) = Some a" and
    b: "slice bitStream (wrap64 (p + offsetBits)) q = Some b"
    by (auto simp: parse_backref_def Let_def split: option.splits)
  from slice_bounds [OF a] slice_bounds [OF b] show ?thesis by linarith
qed

lemma apply_backref_cursor:
  "apply_backref maxLen offsetBits offset length' st = Continue st' \<Longrightarrow> position st' = position st"
  by (auto simp: apply_backref_def split: if_splits option.splits copy_result.splits)

lemma literal_token_cursor:
  "literal_token bitStream offsetBits st = Continue st' \<Longrightarrow> position st' = position st + 8"
  by (auto simp: literal_token_def Let_def split: if_splits option.splits)

lemma backref_token_cursor:
  assumes "backref_token maxLen bitStream offsetBits lengthBits st = Continue st'"
  shows "position st \<le> position st'"
proof -
  from assms obtain offset length' q where
    p: "parse_backref bitStream offsetBits lengthBits (position st) = Some (offset, length', q)" and
    a: "apply_backref maxLen offsetBits offset length' (st\<lparr>position := q\<rparr>) = Continue st'"
    by (auto simp: backref_token_def split: if_splits option.splits prod.splits)
  from parse_backref_cursor [OF p] apply_backref_cursor [OF a] show ?thesis by simp
qed

lemma step_cursor:
  assumes "step maxLen bitStream offsetBits lengthBits st = Continue st'"
  shows "position st < position st'"
proof -
  let ?st1 = "st\<lparr>position := position st + 1\<rparr>"
  from assms obtain flag where
    r: "(if flag = ''0'' then literal_token bitStream offsetBits ?st1
         else if flag = ''1'' then backref_token maxLen bitStream offsetBits lengthBits ?st1
         else Continue ?st1) = Continue st'"
    unfolding step_def Let_def by (simp split: if_splits option.splits)
  then consider
      "literal_token bitStream offsetBits ?st1 = Continue st'"
    | "backref_token maxLen bitStream offsetBits lengthBits ?st1 = Continue st'"
    | "st' = ?st1"
    by (cases "flag = ''0''"; cases "flag = ''1''") (simp_all only: if_True if_False step_result.inject, auto)
  then show ?thesis
  proof cases
    case 1
    from literal_token_cursor [OF 1] show ?thesis by simp
  next
    case 2
    from backref_token_cursor [OF 2] show ?thesis by simp
  next
    case 3
    then show ?thesis by simp
  qed
qed

text \<open>The loop of lines 40 to 127, from the state \<open>st\<close> at its head.\<close>

function decode_loop :: "int \<Rightarrow> string \<Rightarrow> int \<Rightarrow> int \<Rightarrow> state \<Rightarrow> outcome" where
  "decode_loop maxLen bitStream offsetBits lengthBits st =
     (if position st < int (length bitStream)
      then (case step maxLen bitStream offsetBits lengthBits st of
              Continue st' \<Rightarrow> decode_loop maxLen bitStream offsetBits lengthBits st'
            | Done r \<Rightarrow> r)
      else Returned (output' st) None)"
  by pat_completeness auto
termination
proof (relation "measure (\<lambda>(maxLen, bitStream, offsetBits, lengthBits, st).
                   nat (int (length bitStream) - position st))")
  show "wf (measure (\<lambda>(maxLen, bitStream, offsetBits, lengthBits, st).
              nat (int (length bitStream) - position st)))"
    by simp
next
  fix maxLen :: int and bitStream :: string and offsetBits lengthBits :: int and st st' :: state
  assume "position st < int (length bitStream)"
    and "step maxLen bitStream offsetBits lengthBits st = Continue st'"
  then show "((maxLen, bitStream, offsetBits, lengthBits, st'), (maxLen, bitStream, offsetBits, lengthBits, st))
      \<in> measure (\<lambda>(maxLen, bitStream, offsetBits, lengthBits, st).
            nat (int (length bitStream) - position st))"
    using step_cursor [of maxLen bitStream offsetBits lengthBits st st'] by simp
qed

declare decode_loop.simps [simp del]

definition decodeLZ77 :: "int \<Rightarrow> string \<Rightarrow> int \<Rightarrow> int \<Rightarrow> outcome" where
  "decodeLZ77 maxLen bitStream offsetBits lengthBits =
     decode_loop maxLen bitStream offsetBits lengthBits init_state"

text \<open>
  The states at the head of the loop, one per evaluation of the condition of line 40 that
  the run reaches, in order: the token boundaries.
\<close>

function loop_heads :: "int \<Rightarrow> string \<Rightarrow> int \<Rightarrow> int \<Rightarrow> state \<Rightarrow> state list" where
  "loop_heads maxLen bitStream offsetBits lengthBits st =
     st # (if position st < int (length bitStream)
           then (case step maxLen bitStream offsetBits lengthBits st of
                   Continue st' \<Rightarrow> loop_heads maxLen bitStream offsetBits lengthBits st'
                 | Done r \<Rightarrow> [])
           else [])"
  by pat_completeness auto
termination
proof (relation "measure (\<lambda>(maxLen, bitStream, offsetBits, lengthBits, st).
                   nat (int (length bitStream) - position st))")
  show "wf (measure (\<lambda>(maxLen, bitStream, offsetBits, lengthBits, st).
              nat (int (length bitStream) - position st)))"
    by simp
next
  fix maxLen :: int and bitStream :: string and offsetBits lengthBits :: int and st st' :: state
  assume "position st < int (length bitStream)"
    and "step maxLen bitStream offsetBits lengthBits st = Continue st'"
  then show "((maxLen, bitStream, offsetBits, lengthBits, st'), (maxLen, bitStream, offsetBits, lengthBits, st))
      \<in> measure (\<lambda>(maxLen, bitStream, offsetBits, lengthBits, st).
            nat (int (length bitStream) - position st))"
    using step_cursor [of maxLen bitStream offsetBits lengthBits st st'] by simp
qed

declare loop_heads.simps [simp del]

subsection \<open>The values the search buffer takes\<close>

text \<open>
  Every assignment to \<^verbatim>\<open>searchBuffer\<close> in the order of execution: the appends of
  lines 71 and 117 and the trims of lines 75 and 122. The functions below follow the
  branches of \<open>copy_loop\<close>, \<open>literal_token\<close>, \<open>apply_backref\<close>, \<open>backref_token\<close> and
  \<open>step\<close> and list the values assigned instead of building the next state.
\<close>

function copy_writes :: "int \<Rightarrow> int \<Rightarrow> int \<Rightarrow> int \<Rightarrow> string \<Rightarrow> string \<Rightarrow> string list" where
  "copy_writes maxLen startPos length' i out sb =
     (if i < length' then
        (if startPos + i \<ge> int (length sb) then []
         else if startPos + i < 0 then []
         else if int (length (out @ [sb ! nat (startPos + i)])) > capacity maxLen
               \<or> int (length (sb @ string_of_byte (sb ! nat (startPos + i)))) > capacity maxLen
           then []
         else (sb @ string_of_byte (sb ! nat (startPos + i))) #
              copy_writes maxLen startPos length' (i + 1)
                (out @ [sb ! nat (startPos + i)])
                (sb @ string_of_byte (sb ! nat (startPos + i))))
      else [])"
  by pat_completeness auto
termination
  by (relation "measure (\<lambda>(maxLen, startPos, length', i, out, sb). nat (length' - i))") auto

declare copy_writes.simps [simp del]

definition trim_literal_writes :: "int \<Rightarrow> string \<Rightarrow> string list" where
  "trim_literal_writes offsetBits sb =
     (if offsetBits < 0 then []
      else if int (length sb) > shl1 offsetBits
        then (case slice_from sb 1 of None \<Rightarrow> [] | Some sb' \<Rightarrow> [sb'])
      else [])"

definition trim_backref_writes :: "int \<Rightarrow> string \<Rightarrow> string list" where
  "trim_backref_writes offsetBits sb =
     (if offsetBits < 0 then []
      else if int (length sb) > shl1 offsetBits
        then (case slice_from sb (wrap64 (int (length sb) - shl1 offsetBits)) of
                None \<Rightarrow> [] | Some sb' \<Rightarrow> [sb'])
      else [])"

definition literal_writes :: "string \<Rightarrow> int \<Rightarrow> state \<Rightarrow> string list" where
  "literal_writes bitStream offsetBits st =
     (if position st + 8 > int (length bitStream) then []
      else case slice bitStream (position st) (position st + 8) of
        None \<Rightarrow> []
      | Some literalBits \<Rightarrow>
          (let charCode = bits_loop 7 0 literalBits 0;
               sb = searchBuffer st @ [char_of charCode]
           in if 32 \<le> charCode \<and> charCode \<le> 126
              then sb # trim_literal_writes offsetBits sb
              else []))"

definition apply_backref_writes :: "int \<Rightarrow> int \<Rightarrow> int \<Rightarrow> int \<Rightarrow> state \<Rightarrow> string list" where
  "apply_backref_writes maxLen offsetBits offset length' st =
     (if offset > int (length (searchBuffer st)) \<or> length' = 0 then []
      else copy_writes maxLen (wrap64 (int (length (searchBuffer st)) - offset)) length' 0
             (output' st) (searchBuffer st) @
           (case copy_loop maxLen (wrap64 (int (length (searchBuffer st)) - offset)) length' 0
                   (output' st) (searchBuffer st) of
              Copied out sb \<Rightarrow> trim_backref_writes offsetBits sb
            | _ \<Rightarrow> []))"

definition backref_writes :: "int \<Rightarrow> string \<Rightarrow> int \<Rightarrow> int \<Rightarrow> state \<Rightarrow> string list" where
  "backref_writes maxLen bitStream offsetBits lengthBits st =
     (if wrap64 (wrap64 (position st + offsetBits) + lengthBits) > int (length bitStream)
      then []
      else case parse_backref bitStream offsetBits lengthBits (position st) of
        None \<Rightarrow> []
      | Some (offset, length', p) \<Rightarrow>
          apply_backref_writes maxLen offsetBits offset length' (st\<lparr>position := p\<rparr>))"

definition step_writes :: "int \<Rightarrow> string \<Rightarrow> int \<Rightarrow> int \<Rightarrow> state \<Rightarrow> string list" where
  "step_writes maxLen bitStream offsetBits lengthBits st =
     (if position st + 1 > int (length bitStream) then []
      else case slice bitStream (position st) (position st + 1) of
        None \<Rightarrow> []
      | Some flag \<Rightarrow>
          (let st1 = st\<lparr>position := position st + 1\<rparr>
           in if flag = ''0'' then literal_writes bitStream offsetBits st1
              else if flag = ''1'' then backref_writes maxLen bitStream offsetBits lengthBits st1
              else []))"

text \<open>
  The values of the search buffer over a whole call: the empty string of line 37, then
  the writes of each round.
\<close>

definition searchBuffer_values :: "int \<Rightarrow> string \<Rightarrow> int \<Rightarrow> int \<Rightarrow> string list" where
  "searchBuffer_values maxLen bitStream offsetBits lengthBits =
     [] # concat (map (step_writes maxLen bitStream offsetBits lengthBits)
                    (loop_heads maxLen bitStream offsetBits lengthBits init_state))"

text \<open>The window bound of the sliding window, \<open>2 ^ offsetBits\<close> bytes.\<close>

definition within_window :: "int \<Rightarrow> string \<Rightarrow> bool" where
  "within_window offsetBits sb = (int (length sb) \<le> 2 ^ nat offsetBits)"

subsection \<open>Literal-only streams\<close>

text \<open>
  The inner loop of \<^verbatim>\<open>generateBitStream\<close> (lines 135 to 141), for a character below
  256: its 8 bits, the most significant first.
\<close>

definition char_bits :: "char \<Rightarrow> string" where
  "char_bits c =
     map (\<lambda>i. if (of_char c div 2 ^ i) mod 2 = (1 :: nat) then CHR ''1'' else CHR ''0'')
       [7, 6, 5, 4, 3, 2, 1, 0]"

text \<open>
  A string as literal tokens only, the encoding of property P4 of the specification: for
  each character the flag \<^verbatim>\<open>'0'\<close> and the 8 bits of its code. The repository has no
  encoder that writes flags (\<^verbatim>\<open>generateBitStream\<close> writes the 8 bits alone), so
  this stream is put together here from the bits of \<open>char_bits\<close>.
\<close>

fun literal_stream :: "string \<Rightarrow> string" where
  "literal_stream [] = []"
| "literal_stream (c # s) = CHR ''0'' # char_bits c @ literal_stream s"

text \<open>Printable ASCII, the test of line 68.\<close>

definition printable :: "char \<Rightarrow> bool" where
  "printable c = (32 \<le> (of_char c :: int) \<and> (of_char c :: int) \<le> 126)"

section \<open>Properties of one round\<close>

subsection \<open>How a round can end the scan\<close>

lemma literal_token_done:
  "literal_token bitStream offsetBits st = Done r \<Longrightarrow>
     r = Panic \<or> r = Returned (output' st) (Some (IncompleteLiteral (position st)))"
  by (auto simp: literal_token_def Let_def split: if_splits option.splits)

lemma apply_backref_done:
  "apply_backref maxLen offsetBits offset length' st = Done r \<Longrightarrow> r = Panic \<or> r = OutOfMemory"
  by (auto simp: apply_backref_def split: if_splits option.splits copy_result.splits)

lemma backref_token_done:
  assumes "backref_token maxLen bitStream offsetBits lengthBits st = Done r"
  shows "r = Panic \<or> r = OutOfMemory
       \<or> r = Returned (output' st) (Some (IncompleteBackReference (position st)))"
proof (cases "wrap64 (wrap64 (position st + offsetBits) + lengthBits) > int (length bitStream)")
  case True
  with assms show ?thesis by (simp add: backref_token_def)
next
  case False
  show ?thesis
  proof (cases "parse_backref bitStream offsetBits lengthBits (position st)")
    case None
    with False assms show ?thesis by (simp add: backref_token_def)
  next
    case (Some t)
    obtain offset length' p where t: "t = (offset, length', p)" by (cases t)
    from False assms Some t
    have "apply_backref maxLen offsetBits offset length' (st\<lparr>position := p\<rparr>) = Done r"
      by (simp add: backref_token_def)
    from apply_backref_done [OF this] show ?thesis by auto
  qed
qed

lemma step_unfold:
  assumes "0 \<le> position st" and "position st < int (length bitStream)"
  shows "step maxLen bitStream offsetBits lengthBits st =
     (if bitStream ! nat (position st) = CHR ''0''
        then literal_token bitStream offsetBits (st\<lparr>position := position st + 1\<rparr>)
      else if bitStream ! nat (position st) = CHR ''1''
        then backref_token maxLen bitStream offsetBits lengthBits (st\<lparr>position := position st + 1\<rparr>)
      else Continue (st\<lparr>position := position st + 1\<rparr>))"
proof -
  have "nat (position st) < length bitStream" using assms by linarith
  from Cons_nth_drop_Suc [OF this, symmetric]
  have "take 1 (drop (nat (position st)) bitStream) = [bitStream ! nat (position st)]"
    by simp
  then have "slice bitStream (position st) (position st + 1) = Some [bitStream ! nat (position st)]"
    using assms by (simp add: slice_def)
  then show ?thesis using assms by (simp add: step_def Let_def)
qed

lemma step_negative:
  "position st < 0 \<Longrightarrow> position st < int (length bitStream) \<Longrightarrow> step maxLen bitStream offsetBits lengthBits st = Done Panic"
  by (simp add: step_def slice_def)

lemma step_done:
  assumes "step maxLen bitStream offsetBits lengthBits st = Done r"
    and "position st < int (length bitStream)"
  shows "r = Panic \<or> r = OutOfMemory
       \<or> r = Returned (output' st) (Some (IncompleteLiteral (position st + 1)))
       \<or> r = Returned (output' st) (Some (IncompleteBackReference (position st + 1)))"
proof (cases "0 \<le> position st")
  case False
  with assms step_negative [of st bitStream maxLen offsetBits lengthBits] show ?thesis by simp
next
  case True
  note u = step_unfold [OF True assms(2), of maxLen offsetBits lengthBits]
  show ?thesis
  proof (cases "bitStream ! nat (position st) = CHR ''0''")
    case True
    with u assms(1) have "literal_token bitStream offsetBits (st\<lparr>position := position st + 1\<rparr>) = Done r"
      by simp
    from literal_token_done [OF this] show ?thesis by auto
  next
    case False
    show ?thesis
    proof (cases "bitStream ! nat (position st) = CHR ''1''")
      case True
      with u assms(1) have "backref_token maxLen bitStream offsetBits lengthBits (st\<lparr>position := position st + 1\<rparr>) = Done r"
        by simp
      from backref_token_done [OF this] show ?thesis by auto
    next
      case f: False
      with False u assms(1) show ?thesis by simp
    qed
  qed
qed

lemma decode_loop_no_ueos:
  "decode_loop maxLen bitStream offsetBits lengthBits st \<noteq> Returned out (Some (UnexpectedEndOfStream p))"
proof (induction maxLen bitStream offsetBits lengthBits st rule: decode_loop.induct)
  case (1 maxLen bitStream offsetBits lengthBits st)
  show ?case
  proof (cases "position st < int (length bitStream)")
    case False
    then show ?thesis by (simp add: decode_loop.simps [of maxLen bitStream offsetBits lengthBits st])
  next
    case True
    show ?thesis
    proof (cases "step maxLen bitStream offsetBits lengthBits st")
      case (Continue st')
      with True "1.IH" [OF True Continue] show ?thesis
        by (simp add: decode_loop.simps [of maxLen bitStream offsetBits lengthBits st])
    next
      case (Done r)
      from step_done [OF Done True] Done True show ?thesis
        by (auto simp: decode_loop.simps [of maxLen bitStream offsetBits lengthBits st])
    qed
  qed
qed

lemma decode_loop_at_end:
  "int (length bitStream) \<le> position st \<Longrightarrow>
     decode_loop maxLen bitStream offsetBits lengthBits st = Returned (output' st) None"
  by (simp add: decode_loop.simps [of maxLen bitStream offsetBits lengthBits st])

section \<open>Arithmetic of the model\<close>

lemma wrap64_id: "- (2 ^ 63) \<le> n \<Longrightarrow> n < 2 ^ 63 \<Longrightarrow> wrap64 n = n"
  by (simp add: wrap64_def)

lemma wrap64_range: "- (2 ^ 63) \<le> wrap64 n \<and> wrap64 n < 2 ^ 63"
proof -
  have "0 \<le> (n + 2 ^ 63) mod 2 ^ 64" "(n + 2 ^ 63) mod 2 ^ 64 < (2 ^ 64 :: int)"
    by simp_all
  then show ?thesis by (simp add: wrap64_def)
qed

lemma shl1_small: "0 \<le> k \<Longrightarrow> k \<le> 62 \<Longrightarrow> shl1 k = 2 ^ nat k"
proof -
  assume k: "0 \<le> k" "k \<le> 62"
  then have "nat k < 63" by linarith
  then have "(2 :: int) ^ nat k < 2 ^ 63" by (simp only: power_strict_increasing_iff) 
  moreover have "- (2 ^ 63) \<le> (2 :: int) ^ nat k"
    by (rule order_trans [of _ 0]) simp_all
  ultimately show ?thesis using k by (simp add: shl1_def wrap64_id)
qed

lemma shl1_large: "63 \<le> k \<Longrightarrow> shl1 k \<le> 0"
proof (cases "64 \<le> k")
  case True
  then show ?thesis by (simp add: shl1_def)
next
  case False
  assume "63 \<le> k"
  with False have "k = 63" by simp
  then show ?thesis by (simp add: shl1_def wrap64_def)
qed

lemma shl1_le_power: "0 \<le> k \<Longrightarrow> shl1 k \<le> 2 ^ nat k"
proof (cases "k \<le> 62")
  case True
  assume "0 \<le> k"
  with True show ?thesis by (simp add: shl1_small)
next
  case False
  then have "shl1 k \<le> 0" by (simp add: shl1_large)
  also have "(0 :: int) \<le> 2 ^ nat k" by simp
  finally show ?thesis .
qed

section \<open>Fields and their values\<close>

lemma binary_value_bounds: "0 \<le> binary_value s \<and> binary_value s < 2 ^ length s"
  by (induction s) auto

lemma bits_loop_range:
  "- (2 ^ 63) \<le> v \<Longrightarrow> v < 2 ^ 63 \<Longrightarrow>
     - (2 ^ 63) \<le> bits_loop msb i s v \<and> bits_loop msb i s v < 2 ^ 63"
proof (induction s arbitrary: i v)
  case Nil
  then show ?case by simp
next
  case (Cons b rest)
  show ?case
  proof (cases "b = CHR ''1''")
    case True
    from wrap64_range [of "v + shl1 (msb - i)"]
    show ?thesis using True Cons.IH [of "wrap64 (v + shl1 (msb - i))" "i + 1"] by simp
  next
    case False
    then show ?thesis using Cons.IH [of v "i + 1"] Cons.prems by simp
  qed
qed

lemma bits_loop_value:
  "int (length s) = msb - i + 1 \<Longrightarrow> 0 \<le> v \<Longrightarrow> v + 2 ^ length s \<le> 2 ^ 63 \<Longrightarrow>
     bits_loop msb i s v = v + binary_value s"
proof (induction s arbitrary: i v)
  case Nil
  then show ?case by simp
next
  case (Cons b rest)
  have len: "int (length rest) = msb - (i + 1) + 1" using Cons.prems(1) by simp
  have k: "msb - i = int (length rest)" using Cons.prems(1) by simp
  have room: "v + 2 * 2 ^ length rest \<le> (2 :: int) ^ 63" using Cons.prems(3) by simp
  have pos: "(0 :: int) < 2 ^ length rest" by simp
  show ?case
  proof (cases "b = CHR ''1''")
    case False
    have "v + 2 ^ length rest \<le> (2 :: int) ^ 63" using room pos by linarith
    from Cons.IH [OF len Cons.prems(2) this] False show ?thesis by simp
  next
    case True
    have "(2 :: int) ^ length rest < 2 ^ 63" using room pos Cons.prems(2) by linarith
    then have "length rest < 63" by (simp only: power_strict_increasing_iff)
    then have s: "shl1 (msb - i) = 2 ^ length rest" using k by (simp add: shl1_small)
    have w: "wrap64 (v + 2 ^ length rest) = v + 2 ^ length rest"
      using room pos Cons.prems(2) by (intro wrap64_id) linarith+
    have "0 \<le> v + 2 ^ length rest" using pos Cons.prems(2) by linarith
    moreover have "v + 2 ^ length rest + 2 ^ length rest \<le> (2 :: int) ^ 63" using room by linarith
    ultimately have "bits_loop msb (i + 1) rest (v + 2 ^ length rest)
        = v + 2 ^ length rest + binary_value rest"
      using Cons.IH [OF len] by blast
    then show ?thesis using True s w by simp
  qed
qed

lemma binary_value_rev_bits:
  fixes n :: nat
  shows "binary_value (rev (map (\<lambda>i. if (n div 2 ^ i) mod 2 = 1 then CHR ''1'' else CHR ''0'') [0..<k]))
     = int (n mod 2 ^ k)"
proof (induction k)
  case 0
  show ?case by simp
next
  case (Suc k)
  have "n mod 2 ^ Suc k = 2 ^ k * (n div 2 ^ k mod 2) + n mod 2 ^ k"
    using mod_mult2_eq [of n "2 ^ k" 2] by (simp add: mult.commute)
  then show ?case using Suc by (auto simp: algebra_simps)
qed

lemma char_bits_rev:
  "char_bits c = rev (map (\<lambda>i. if (of_char c div 2 ^ i) mod 2 = (1 :: nat) then CHR ''1'' else CHR ''0'') [0..<8])"
  by (simp add: char_bits_def upt_rec)

lemma char_bits_value: "binary_value (char_bits c) = of_char c"
proof -
  have "(of_char c :: nat) < 2 ^ 8" by simp
  then have "(of_char c :: nat) mod 2 ^ 8 = of_char c" by (simp only: mod_less)
  then show ?thesis
    unfolding char_bits_rev binary_value_rev_bits by (simp add: of_nat_of_char)
qed

section \<open>The copy loop\<close>

lemma string_of_byte_printable: "printable c \<Longrightarrow> string_of_byte c = [c]"
proof -
  assume "printable c"
  then have "(of_char c :: int) < 128" by (simp add: printable_def)
  then have "int (of_char c) < 128" by (simp add: of_nat_of_char)
  then show ?thesis by (simp add: string_of_byte_def)
qed

lemma string_of_byte_length: "1 \<le> length (string_of_byte c)"
  by (simp add: string_of_byte_def)

lemma copy_loop_stop:
  "\<not> i < length' \<or> int (length sb) \<le> startPos + i \<Longrightarrow>
     copy_loop maxLen startPos length' i out sb = Copied out sb"
  by (auto simp: copy_loop.simps [of maxLen startPos length' i out sb])

text \<open>One round of the copy that goes on.\<close>

lemma copy_loop_round:
  assumes "i < length'" and "startPos + i < int (length sb)" and "0 \<le> startPos + i"
    and "int (length out) + 1 \<le> capacity maxLen"
    and "int (length (sb @ string_of_byte (sb ! nat (startPos + i)))) \<le> capacity maxLen"
  shows "copy_loop maxLen startPos length' i out sb =
     copy_loop maxLen startPos length' (i + 1)
       (out @ [sb ! nat (startPos + i)]) (sb @ string_of_byte (sb ! nat (startPos + i)))"
  using assms by (subst copy_loop.simps) simp

text \<open>
  On a search buffer of printable bytes the copy appends the same bytes to the output and
  to the search buffer, bytes of the search buffer, and at most \<open>length\<close> of them.
\<close>

lemma copy_loop_result:
  "copy_loop maxLen startPos length' i out sb = Copied out' sb' \<Longrightarrow>
   \<forall>c \<in> set sb. printable c \<Longrightarrow>
     \<exists>ext. out' = out @ ext \<and> sb' = sb @ ext \<and> set ext \<subseteq> set sb
       \<and> int (length ext) \<le> max 0 (length' - i)"
proof (induction maxLen startPos length' i out sb rule: copy_loop.induct)
  case (1 maxLen startPos length' i out sb)
  let ?c = "sb ! nat (startPos + i)"
  let ?go = "i < length' \<and> \<not> int (length sb) \<le> startPos + i \<and> \<not> startPos + i < 0
      \<and> \<not> (int (length (out @ [?c])) > capacity maxLen \<or> int (length (sb @ string_of_byte ?c)) > capacity maxLen)"
  show ?case
  proof (cases ?go)
    case False
    with "1.prems"(1) have "out' = out \<and> sb' = sb"
      by (auto simp: copy_loop.simps [of maxLen startPos length' i out sb] split: if_splits)
    then show ?thesis by simp
  next
    case True
    from True have c: "?c \<in> set sb" by (intro nth_mem) linarith
    with "1.prems"(2) have s: "string_of_byte ?c = [?c]" by (simp add: string_of_byte_printable)
    from True "1.prems"(1)
    have r: "copy_loop maxLen startPos length' (i + 1) (out @ [?c]) (sb @ string_of_byte ?c)
        = Copied out' sb'"
      by (simp add: copy_loop.simps [of maxLen startPos length' i out sb])
    have p: "\<forall>c \<in> set (sb @ string_of_byte ?c). printable c"
      using "1.prems"(2) c s by simp
    from True have "i < length'" "\<not> int (length sb) \<le> startPos + i" "\<not> startPos + i < 0"
      "\<not> (int (length (out @ [?c])) > capacity maxLen \<or> int (length (sb @ string_of_byte ?c)) > capacity maxLen)"
      by simp_all
    from "1.IH" [OF this r p] obtain ext where
      e: "out' = (out @ [?c]) @ ext" "sb' = (sb @ string_of_byte ?c) @ ext"
         "set ext \<subseteq> set (sb @ string_of_byte ?c)"
         "int (length ext) \<le> max 0 (length' - (i + 1))"
      by blast
    have "out' = out @ (?c # ext)" "sb' = sb @ (?c # ext)" using e s by simp_all
    moreover have "set (?c # ext) \<subseteq> set sb" using e(3) c s by auto
    moreover have "int (length (?c # ext)) \<le> max 0 (length' - i)" using e(4) True by simp
    ultimately show ?thesis by blast
  qed
qed

lemma copy_loop_no_panic:
  "0 \<le> startPos + i \<Longrightarrow> copy_loop maxLen startPos length' i out sb \<noteq> IndexOutOfRange"
proof (induction maxLen startPos length' i out sb rule: copy_loop.induct)
  case (1 maxLen startPos length' i out sb)
  let ?c = "sb ! nat (startPos + i)"
  let ?full = "int (length (out @ [?c])) > capacity maxLen \<or> int (length (sb @ string_of_byte ?c)) > capacity maxLen"
  show ?case
  proof (cases "i < length' \<and> \<not> int (length sb) \<le> startPos + i")
    case False
    then show ?thesis by (simp add: copy_loop_stop)
  next
    case True
    show ?thesis
    proof (cases ?full)
      case f: True
      with True "1.prems" show ?thesis
        by (simp add: copy_loop.simps [of maxLen startPos length' i out sb])
    next
      case f: False
      from True have "i < length'" "\<not> int (length sb) \<le> startPos + i" "\<not> startPos + i < 0"
        using "1.prems" by simp_all
      from "1.IH" [OF this f] "1.prems" True f show ?thesis
        by (simp add: copy_loop.simps [of maxLen startPos length' i out sb])
    qed
  qed
qed

text \<open>
  A copy from inside a search buffer of printable bytes, with memory for \<open>length\<close> more
  bytes, appends exactly \<open>length\<close> bytes: byte \<open>k\<close> is read at the source index
  \<open>startPos + k\<close> from the search buffer as it has grown by then.
\<close>

lemma copy_loop_full:
  "0 \<le> startPos + i \<Longrightarrow> startPos + i < int (length sb) \<Longrightarrow> i \<le> length' \<Longrightarrow>
   \<forall>c \<in> set sb. printable c \<Longrightarrow>
   int (length out) + (length' - i) \<le> capacity maxLen \<Longrightarrow> int (length sb) + (length' - i) \<le> capacity maxLen \<Longrightarrow>
     \<exists>ext. copy_loop maxLen startPos length' i out sb = Copied (out @ ext) (sb @ ext)
       \<and> int (length ext) = length' - i
       \<and> (\<forall>k < length ext. ext ! k = (sb @ ext) ! nat (startPos + i + int k))"
proof (induction maxLen startPos length' i out sb rule: copy_loop.induct)
  case (1 maxLen startPos length' i out sb)
  show ?case
  proof (cases "i < length'")
    case False
    with "1.prems" have "i = length'" by simp
    then have "copy_loop maxLen startPos length' i out sb = Copied (out @ []) (sb @ [])"
      by (simp add: copy_loop_stop)
    moreover have "int (length ([] :: string)) = length' - i" using \<open>i = length'\<close> by simp
    ultimately show ?thesis by (intro exI [of _ "[]"]) simp
  next
    case True
    let ?c = "sb ! nat (startPos + i)"
    have c: "?c \<in> set sb" using "1.prems"(1,2) by (intro nth_mem) linarith
    with "1.prems"(4) have s: "string_of_byte ?c = [?c]" by (simp add: string_of_byte_printable)
    have a: "\<not> int (length sb) \<le> startPos + i" "\<not> startPos + i < 0"
      "\<not> (int (length (out @ [?c])) > capacity maxLen \<or> int (length (sb @ string_of_byte ?c)) > capacity maxLen)"
      using "1.prems" True s by simp_all
    have "0 \<le> startPos + (i + 1)" "startPos + (i + 1) < int (length (sb @ string_of_byte ?c))"
      "i + 1 \<le> length'" "\<forall>c \<in> set (sb @ string_of_byte ?c). printable c"
      "int (length (out @ [?c])) + (length' - (i + 1)) \<le> capacity maxLen"
      "int (length (sb @ string_of_byte ?c)) + (length' - (i + 1)) \<le> capacity maxLen"
      using "1.prems" True c s by simp_all
    from "1.IH" [OF True a this] obtain ext where
      e: "copy_loop maxLen startPos length' (i + 1) (out @ [?c]) (sb @ string_of_byte ?c)
            = Copied ((out @ [?c]) @ ext) ((sb @ string_of_byte ?c) @ ext)"
         "int (length ext) = length' - (i + 1)"
         "\<forall>k < length ext. ext ! k
            = ((sb @ string_of_byte ?c) @ ext) ! nat (startPos + (i + 1) + int k)"
      by blast
    have r: "copy_loop maxLen startPos length' i out sb = Copied (out @ (?c # ext)) (sb @ (?c # ext))"
      using True a e(1) s by (simp add: copy_loop.simps [of maxLen startPos length' i out sb])
    have l: "int (length (?c # ext)) = length' - i" using e(2) by simp
    have "(?c # ext) ! k = (sb @ (?c # ext)) ! nat (startPos + i + int k)"
      if k: "k < length (?c # ext)" for k
    proof (cases k)
      case 0
      have "nat (startPos + i) < length sb" using "1.prems" by linarith
      then show ?thesis using 0 by (simp add: nth_append)
    next
      case (Suc j)
      with k have j: "j < length ext" by simp
      have "nat (startPos + i + int (Suc j)) = nat (startPos + (i + 1) + int j)"
        by (simp add: algebra_simps)
      with e(3) j Suc s show ?thesis by simp
    qed
    with r l show ?thesis by blast
  qed
qed

text \<open>
  A copy from inside the search buffer that asks for more bytes than the memory has room
  for in the output ends in \<open>MemoryExhausted\<close>, whatever the bytes.
\<close>

lemma copy_loop_exhausts:
  "0 \<le> startPos + i \<Longrightarrow> startPos + i < int (length sb) \<Longrightarrow>
   i < length' \<Longrightarrow> capacity maxLen < int (length out) + (length' - i) \<Longrightarrow>
     copy_loop maxLen startPos length' i out sb = MemoryExhausted"
proof (induction maxLen startPos length' i out sb rule: copy_loop.induct)
  case (1 maxLen startPos length' i out sb)
  let ?c = "sb ! nat (startPos + i)"
  let ?full = "int (length (out @ [?c])) > capacity maxLen \<or> int (length (sb @ string_of_byte ?c)) > capacity maxLen"
  note i = "1.prems"(3)
  have a: "\<not> int (length sb) \<le> startPos + i" "\<not> startPos + i < 0"
    using "1.prems"(1,2) by simp_all
  show ?case
  proof (cases ?full)
    case True
    with i a show ?thesis by (simp add: copy_loop.simps [of maxLen startPos length' i out sb])
  next
    case False
    have "0 \<le> startPos + (i + 1)" using "1.prems"(1) by simp
    moreover have "startPos + (i + 1) < int (length (sb @ string_of_byte ?c))"
      using "1.prems"(2) string_of_byte_length [of ?c] by simp
    moreover have "i + 1 < length'" using False "1.prems"(4) by simp
    moreover have "capacity maxLen < int (length (out @ [?c])) + (length' - (i + 1))"
      using "1.prems"(4) by simp
    ultimately
    have "copy_loop maxLen startPos length' (i + 1) (out @ [?c]) (sb @ string_of_byte ?c)
        = MemoryExhausted"
      by (rule "1.IH" [OF i a False])
    with i a False show ?thesis
      by (simp add: copy_loop.simps [of maxLen startPos length' i out sb])
  qed
qed

section \<open>The trims of the search buffer\<close>

lemma slice_from_result:
  "slice_from s lo = Some r \<Longrightarrow> 0 \<le> lo \<and> lo \<le> int (length s) \<and> r = drop (nat lo) s"
  by (simp add: slice_from_def split: if_splits)

lemma trim_literal_result:
  assumes "trim_literal offsetBits sb = Some sb'"
  shows "0 \<le> offsetBits
       \<and> sb' = (if int (length sb) > shl1 offsetBits then drop 1 sb else sb)"
proof -
  from assms have n: "0 \<le> offsetBits" by (simp add: trim_literal_def split: if_splits)
  show ?thesis
  proof (cases "int (length sb) > shl1 offsetBits")
    case True
    with assms n have "slice_from sb 1 = Some sb'" by (simp add: trim_literal_def)
    from slice_from_result [OF this] True n show ?thesis by simp
  next
    case False
    with assms n show ?thesis by (simp add: trim_literal_def)
  qed
qed

lemma trim_literal_no_panic:
  "0 \<le> offsetBits \<Longrightarrow> trim_literal offsetBits (sb @ [c]) \<noteq> None"
  by (simp add: trim_literal_def slice_from_def)

lemma trim_literal_window:
  assumes "trim_literal offsetBits (sb @ [c]) = Some sb'"
    and "int (length sb) \<le> max 0 (shl1 offsetBits)"
  shows "int (length sb') \<le> max 0 (shl1 offsetBits)"
  using trim_literal_result [OF assms(1)] assms(2) by (auto split: if_splits)

lemma trim_literal_subset:
  "trim_literal offsetBits sb = Some sb' \<Longrightarrow> set sb' \<subseteq> set sb"
  using trim_literal_result [of offsetBits sb sb'] by (auto dest: in_set_dropD split: if_splits)

lemma trim_backref_result:
  assumes "trim_backref offsetBits sb = Some sb'"
  shows "0 \<le> offsetBits
       \<and> (if int (length sb) > shl1 offsetBits
          then 0 \<le> wrap64 (int (length sb) - shl1 offsetBits)
             \<and> wrap64 (int (length sb) - shl1 offsetBits) \<le> int (length sb)
             \<and> sb' = drop (nat (wrap64 (int (length sb) - shl1 offsetBits))) sb
          else sb' = sb)"
proof -
  from assms have n: "0 \<le> offsetBits" by (simp add: trim_backref_def split: if_splits)
  show ?thesis
  proof (cases "int (length sb) > shl1 offsetBits")
    case True
    with assms n
    have "slice_from sb (wrap64 (int (length sb) - shl1 offsetBits)) = Some sb'"
      by (simp add: trim_backref_def)
    from slice_from_result [OF this] True n show ?thesis by simp
  next
    case False
    with assms n show ?thesis by (simp add: trim_backref_def)
  qed
qed

lemma trim_backref_subset:
  "trim_backref offsetBits sb = Some sb' \<Longrightarrow> set sb' \<subseteq> set sb"
  using trim_backref_result [of offsetBits sb sb'] by (auto dest: in_set_dropD split: if_splits)

text \<open>
  Where \<open>1 << offsetBits\<close> does not overflow, the trim of a back-reference keeps the
  last \<open>2 ^ offsetBits\<close> bytes, and it cannot panic.
\<close>

lemma trim_backref_small:
  assumes "0 \<le> offsetBits" and "offsetBits \<le> 62"
    and "int (length sb) < 2 ^ nat offsetBits + 2 ^ 63"
  shows "trim_backref offsetBits sb =
           Some (if int (length sb) > 2 ^ nat offsetBits
                 then drop (length sb - 2 ^ nat offsetBits) sb else sb)"
proof (cases "int (length sb) > 2 ^ nat offsetBits")
  case False
  with assms show ?thesis by (simp add: trim_backref_def shl1_small)
next
  case True
  have "wrap64 (int (length sb) - 2 ^ nat offsetBits) = int (length sb) - 2 ^ nat offsetBits"
    using True assms(3) by (intro wrap64_id) linarith+
  moreover have "nat (int (length sb) - 2 ^ nat offsetBits) = length sb - 2 ^ nat offsetBits"
  proof -
    have "(2 :: int) ^ nat offsetBits = int (2 ^ nat offsetBits)" by simp
    moreover have "nat (int (length sb) - int (2 ^ nat offsetBits)) = length sb - 2 ^ nat offsetBits"
      by linarith
    ultimately show ?thesis by (simp only:)
  qed
  ultimately show ?thesis using True assms(1,2)
    by (simp add: trim_backref_def shl1_small slice_from_def)
qed

lemma trim_backref_window:
  assumes "trim_backref offsetBits sb = Some sb'"
    and "int (length sb) < max 0 (shl1 offsetBits) + 2 ^ 63"
    and "offsetBits \<le> 62 \<or> sb = []"
  shows "int (length sb') \<le> max 0 (shl1 offsetBits)"
proof (cases "sb = []")
  case True
  with trim_backref_subset [OF assms(1)] show ?thesis by simp
next
  case False
  note r = trim_backref_result [OF assms(1)]
  with False assms(3) have ob: "0 \<le> offsetBits" "offsetBits \<le> 62" by simp_all
  then have s: "shl1 offsetBits = 2 ^ nat offsetBits" by (simp add: shl1_small)
  have p: "(0 :: int) \<le> 2 ^ nat offsetBits" by simp
  have "int (length sb) < 2 ^ nat offsetBits + 2 ^ 63" using assms(2) s p by (simp add: max_def)
  from trim_backref_small [OF ob this] assms(1)
  have "sb' = (if int (length sb) > 2 ^ nat offsetBits
               then drop (length sb - 2 ^ nat offsetBits) sb else sb)"
    by simp
  then have "int (length sb') \<le> 2 ^ nat offsetBits"
    by (auto split: if_splits)
  then show ?thesis using s by simp
qed

section \<open>The literal token\<close>

lemma slice_take_drop:
  "0 \<le> lo \<Longrightarrow> lo \<le> hi \<Longrightarrow> hi \<le> int (length s) \<Longrightarrow>
     slice s lo hi = Some (take (nat (hi - lo)) (drop (nat lo) s))"
  by (simp add: slice_def)

text \<open>The literal: the code parsed is the big-endian value of the next 8 bytes.\<close>

lemma literal_token_unfold:
  assumes "0 \<le> position st" and "position st + 8 \<le> int (length bitStream)"
  shows "literal_token bitStream offsetBits st =
     (let charCode = binary_value (take 8 (drop (nat (position st)) bitStream))
      in if 32 \<le> charCode \<and> charCode \<le> 126
         then (case trim_literal offsetBits (searchBuffer st @ [char_of charCode]) of
                 None \<Rightarrow> Done Panic
               | Some sb \<Rightarrow>
                   Continue (st\<lparr>position := position st + 8,
                                output' := output' st @ [char_of charCode],
                                searchBuffer := sb\<rparr>))
         else Continue (st\<lparr>position := position st + 8\<rparr>))"
proof -
  let ?bits = "take 8 (drop (nat (position st)) bitStream)"
  have s: "slice bitStream (position st) (position st + 8) = Some ?bits"
    using assms by (simp add: slice_take_drop)
  have "length ?bits = 8" using assms by (simp add: min_def) linarith
  then have "bits_loop 7 0 ?bits 0 = 0 + binary_value ?bits"
    by (intro bits_loop_value) simp_all
  then have v: "bits_loop 7 0 ?bits 0 = binary_value ?bits" by simp
  show ?thesis using assms(2) s v
    by (simp add: literal_token_def Let_def)
qed

lemma printable_char_of: "32 \<le> n \<Longrightarrow> n \<le> 126 \<Longrightarrow> printable (char_of (n :: int))"
  by (simp add: printable_def)

lemma literal_token_window:
  assumes "literal_token bitStream offsetBits st = Continue st'"
    and "int (length (searchBuffer st)) \<le> max 0 (shl1 offsetBits)"
  shows "int (length (searchBuffer st')) \<le> max 0 (shl1 offsetBits)"
proof -
  from assms(1) consider
      "searchBuffer st' = searchBuffer st"
    | c where "trim_literal offsetBits (searchBuffer st @ [c]) = Some (searchBuffer st')"
    by (auto simp: literal_token_def Let_def split: if_splits option.splits)
  then show ?thesis
  proof cases
    case 1
    with assms(2) show ?thesis by simp
  next
    case 2
    from trim_literal_window [OF 2 assms(2)] show ?thesis .
  qed
qed

lemma literal_token_printable:
  assumes "literal_token bitStream offsetBits st = Continue st'"
    and "\<forall>c \<in> set (output' st) \<union> set (searchBuffer st). printable c"
  shows "\<forall>c \<in> set (output' st') \<union> set (searchBuffer st'). printable c"
proof -
  from assms(1) consider
      "searchBuffer st' = searchBuffer st" "output' st' = output' st"
    | n :: int where "32 \<le> n" "n \<le> 126" "output' st' = output' st @ [char_of n]"
        "trim_literal offsetBits (searchBuffer st @ [char_of n]) = Some (searchBuffer st')"
    by (auto simp: literal_token_def Let_def split: if_splits option.splits)
  then show ?thesis
  proof cases
    case 1
    with assms(2) show ?thesis by simp
  next
    case 2
    from trim_literal_subset [OF 2(4)] 2(3) assms(2) printable_char_of [OF 2(1,2)]
    show ?thesis by auto
  qed
qed

lemma literal_token_no_panic:
  assumes "0 \<le> position st" and "0 \<le> offsetBits"
  shows "literal_token bitStream offsetBits st \<noteq> Done Panic"
proof (cases "position st + 8 > int (length bitStream)")
  case True
  then show ?thesis by (simp add: literal_token_def)
next
  case False
  then have "position st + 8 \<le> int (length bitStream)" by simp
  note u = literal_token_unfold [OF assms(1) this, of offsetBits]
  let ?code = "binary_value (take 8 (drop (nat (position st)) bitStream))"
  show ?thesis
  proof (cases "32 \<le> ?code \<and> ?code \<le> 126")
    case False
    with u show ?thesis by (simp add: Let_def)
  next
    case True
    from trim_literal_no_panic [OF assms(2), of "searchBuffer st" "char_of ?code"]
    obtain sb where "trim_literal offsetBits (searchBuffer st @ [char_of ?code]) = Some sb"
      by blast
    with u True show ?thesis by (simp add: Let_def)
  qed
qed

section \<open>The back-reference token\<close>

lemma field_value:
  assumes "0 \<le> width" and "width \<le> 63" and "int (length s) = width"
  shows "bits_loop (width - 1) 0 s 0 = binary_value s"
proof -
  have "length s \<le> 63" using assms by linarith
  then have "(2 :: int) ^ length s \<le> 2 ^ 63" by (simp only: power_increasing_iff)
  then have "bits_loop (width - 1) 0 s 0 = 0 + binary_value s"
    using assms(3) by (intro bits_loop_value) simp_all
  then show ?thesis by simp
qed

lemma parse_backref_ok:
  assumes "0 \<le> p" and "0 \<le> offsetBits" and "0 \<le> lengthBits"
    and "p + offsetBits + lengthBits \<le> int (length bitStream)"
    and "int (length bitStream) < 2 ^ 63"
  shows "parse_backref bitStream offsetBits lengthBits p =
     Some (bits_loop (offsetBits - 1) 0 (take (nat offsetBits) (drop (nat p) bitStream)) 0,
           bits_loop (lengthBits - 1) 0
             (take (nat lengthBits) (drop (nat (p + offsetBits)) bitStream)) 0,
           p + offsetBits + lengthBits)"
proof -
  have w1: "wrap64 (p + offsetBits) = p + offsetBits"
    using assms by (intro wrap64_id) linarith+
  have w2: "wrap64 (p + offsetBits + lengthBits) = p + offsetBits + lengthBits"
    using assms by (intro wrap64_id) linarith+
  have s1: "slice bitStream p (p + offsetBits)
      = Some (take (nat offsetBits) (drop (nat p) bitStream))"
    using assms slice_take_drop [of p "p + offsetBits" bitStream] by simp
  have s2: "slice bitStream (p + offsetBits) (p + offsetBits + lengthBits)
      = Some (take (nat lengthBits) (drop (nat (p + offsetBits)) bitStream))"
    using assms slice_take_drop [of "p + offsetBits" "p + offsetBits + lengthBits" bitStream]
    by simp
  show ?thesis by (simp add: parse_backref_def w1 w2 s1 s2 Let_def)
qed

lemma parse_backref_range:
  assumes "parse_backref bitStream offsetBits lengthBits p = Some (offset, length', q)"
  shows "- (2 ^ 63) \<le> offset \<and> offset < 2 ^ 63 \<and> - (2 ^ 63) \<le> length' \<and> length' < 2 ^ 63"
proof -
  from assms obtain a b where
    "offset = bits_loop (offsetBits - 1) 0 a 0" "length' = bits_loop (lengthBits - 1) 0 b 0"
    by (auto simp: parse_backref_def Let_def split: option.splits)
  then show ?thesis
    using bits_loop_range [of 0 "offsetBits - 1" 0 a] bits_loop_range [of 0 "lengthBits - 1" 0 b]
    by simp
qed

text \<open>
  With widths up to 63 and a body that fits the stream, the two fields parsed are the
  unsigned big-endian values of their bytes.
\<close>

lemma parse_backref_value:
  assumes "0 \<le> p" and "0 \<le> offsetBits" and "offsetBits \<le> 63"
    and "0 \<le> lengthBits" and "lengthBits \<le> 63"
    and "p + offsetBits + lengthBits \<le> int (length bitStream)"
    and "int (length bitStream) < 2 ^ 63"
  shows "parse_backref bitStream offsetBits lengthBits p =
     Some (binary_value (take (nat offsetBits) (drop (nat p) bitStream)),
           binary_value (take (nat lengthBits) (drop (nat (p + offsetBits)) bitStream)),
           p + offsetBits + lengthBits)"
proof -
  let ?o = "take (nat offsetBits) (drop (nat p) bitStream)"
  let ?l = "take (nat lengthBits) (drop (nat (p + offsetBits)) bitStream)"
  have "int (length ?o) = offsetBits" using assms by (simp add: min_def) linarith
  from field_value [OF assms(2,3) this]
  have o: "bits_loop (offsetBits - 1) 0 ?o 0 = binary_value ?o" .
  have "int (length ?l) = lengthBits" using assms by (simp add: min_def) linarith
  from field_value [OF assms(4,5) this]
  have l: "bits_loop (lengthBits - 1) 0 ?l 0 = binary_value ?l" .
  from parse_backref_ok [OF assms(1,2,4,6,7)] o l show ?thesis by simp
qed

lemma apply_backref_cases:
  assumes "apply_backref maxLen offsetBits offset length' st = Continue st'"
  obtains (skip) "offset > int (length (searchBuffer st)) \<or> length' = 0" "st' = st"
  | (copy) out sb sb' where
      "\<not> offset > int (length (searchBuffer st))" "length' \<noteq> 0"
      "copy_loop maxLen (wrap64 (int (length (searchBuffer st)) - offset)) length' 0
         (output' st) (searchBuffer st) = Copied out sb"
      "trim_backref offsetBits sb = Some sb'"
      "st' = st\<lparr>output' := out, searchBuffer := sb'\<rparr>"
proof (cases "offset > int (length (searchBuffer st)) \<or> length' = 0")
  case True
  with assms have "st' = st" by (simp add: apply_backref_def)
  with True skip show ?thesis by blast
next
  case False
  with assms obtain out sb where
    c: "copy_loop maxLen (wrap64 (int (length (searchBuffer st)) - offset)) length' 0
         (output' st) (searchBuffer st) = Copied out sb"
    by (cases "copy_loop maxLen (wrap64 (int (length (searchBuffer st)) - offset)) length' 0
         (output' st) (searchBuffer st)") (auto simp: apply_backref_def)
  with False assms obtain sb' where
    t: "trim_backref offsetBits sb = Some sb'"
    by (cases "trim_backref offsetBits sb") (auto simp: apply_backref_def)
  with False assms c have "st' = st\<lparr>output' := out, searchBuffer := sb'\<rparr>"
    by (simp add: apply_backref_def)
  with False c t copy show ?thesis by blast
qed

lemma apply_backref_window:
  assumes "apply_backref maxLen offsetBits offset length' st = Continue st'"
    and "length' < 2 ^ 63"
    and "int (length (searchBuffer st)) \<le> max 0 (shl1 offsetBits)"
    and "\<forall>c \<in> set (searchBuffer st). printable c"
  shows "int (length (searchBuffer st')) \<le> max 0 (shl1 offsetBits)"
  using assms(1)
proof (cases rule: apply_backref_cases)
  case skip
  with assms(3) show ?thesis by simp
next
  case (copy out sb sb')
  from copy_loop_result [OF copy(3) assms(4)] obtain ext where
    e: "sb = searchBuffer st @ ext" "set ext \<subseteq> set (searchBuffer st)"
       "int (length ext) \<le> max 0 (length' - 0)"
    by blast
  have "int (length ext) < 2 ^ 63" using e(3) assms(2) by simp
  then have l: "int (length sb) < max 0 (shl1 offsetBits) + 2 ^ 63"
    using e(1) assms(3) by simp
  have "offsetBits \<le> 62 \<or> sb = []"
  proof (cases "offsetBits \<le> 62")
    case False
    then have "shl1 offsetBits \<le> 0" by (simp add: shl1_large)
    with assms(3) have "searchBuffer st = []" by simp
    with e(1,2) show ?thesis by simp
  qed simp
  from trim_backref_window [OF copy(4) l this] copy(5) show ?thesis by simp
qed

lemma apply_backref_printable:
  assumes "apply_backref maxLen offsetBits offset length' st = Continue st'"
    and "\<forall>c \<in> set (output' st) \<union> set (searchBuffer st). printable c"
  shows "\<forall>c \<in> set (output' st') \<union> set (searchBuffer st'). printable c"
  using assms(1)
proof (cases rule: apply_backref_cases)
  case skip
  with assms(2) show ?thesis by simp
next
  case (copy out sb sb')
  from assms(2) have "\<forall>c \<in> set (searchBuffer st). printable c" by simp
  from copy_loop_result [OF copy(3) this] obtain ext where
    e: "out = output' st @ ext" "sb = searchBuffer st @ ext" "set ext \<subseteq> set (searchBuffer st)"
    by blast
  from trim_backref_subset [OF copy(4)] e copy(5) assms(2) show ?thesis by auto
qed

text \<open>
  A back-reference adds to the output at most \<open>length\<close> bytes, or none when \<open>length\<close>
  is negative, and leaves the search buffer no longer than the output when it was so
  before.
\<close>

lemma apply_backref_growth:
  assumes "apply_backref maxLen offsetBits offset length' st = Continue st'"
    and "\<forall>c \<in> set (searchBuffer st). printable c"
    and "length (searchBuffer st) \<le> length (output' st)"
  shows "int (length (output' st')) \<le> int (length (output' st)) + max 0 length'
       \<and> length (searchBuffer st') \<le> length (output' st') \<and> position st' = position st"
  using assms(1)
proof (cases rule: apply_backref_cases)
  case skip
  with assms(3) show ?thesis by simp
next
  case (copy out sb sb')
  from copy_loop_result [OF copy(3) assms(2)] obtain ext where
    e: "out = output' st @ ext" "sb = searchBuffer st @ ext"
       "int (length ext) \<le> max 0 (length' - 0)"
    by blast
  from trim_backref_result [OF copy(4)] have "length sb' \<le> length sb"
    by (auto split: if_splits)
  with e assms(3) copy(5) show ?thesis by simp
qed

lemma apply_backref_no_panic:
  assumes "0 \<le> offset" and "0 \<le> offsetBits" and "offsetBits \<le> 62" and "length' < 2 ^ 63"
    and "int (length (searchBuffer st)) \<le> 2 ^ nat offsetBits"
    and "\<forall>c \<in> set (searchBuffer st). printable c"
  shows "apply_backref maxLen offsetBits offset length' st \<noteq> Done Panic"
proof (cases "offset > int (length (searchBuffer st)) \<or> length' = 0")
  case True
  then show ?thesis by (simp add: apply_backref_def)
next
  case False
  let ?n = "int (length (searchBuffer st))"
  let ?copy = "copy_loop maxLen (?n - offset) length' 0 (output' st) (searchBuffer st)"
  have "(2 :: int) ^ nat offsetBits \<le> 2 ^ 62"
    using assms(2,3) by (simp only: power_increasing_iff)
  with assms(5) have n: "?n \<le> 2 ^ 62" by linarith
  from False have le: "offset \<le> ?n" by simp
  have w: "wrap64 (?n - offset) = ?n - offset"
    using le assms(1) n by (intro wrap64_id) simp_all
  have "0 \<le> (?n - offset) + 0" using le by simp
  from copy_loop_no_panic [OF this, of maxLen length' "output' st" "searchBuffer st"]
  have np: "?copy \<noteq> IndexOutOfRange" by simp
  show ?thesis
  proof (cases ?copy)
    case IndexOutOfRange
    with np show ?thesis by simp
  next
    case MemoryExhausted
    with False w show ?thesis by (simp add: apply_backref_def)
  next
    case (Copied out sb)
    from copy_loop_result [OF Copied assms(6)] obtain ext where
      e: "sb = searchBuffer st @ ext" "int (length ext) \<le> max 0 (length' - 0)"
      by blast
    have "int (length ext) < 2 ^ 63" using e(2) assms(4) by simp
    moreover have "int (length sb) = ?n + int (length ext)" using e(1) by simp
    ultimately have "int (length sb) < 2 ^ nat offsetBits + 2 ^ 63"
      using assms(5) by linarith
    from trim_backref_small [OF assms(2,3) this] False w Copied show ?thesis
      by (simp add: apply_backref_def)
  qed
qed

text \<open>
  With memory for \<open>length\<close> more bytes of output, the copy of a back-reference does not
  run out of memory.
\<close>

lemma apply_backref_no_exhaustion:
  assumes "0 \<le> offset" and "int (length (searchBuffer st)) < 2 ^ 63"
    and "\<forall>c \<in> set (searchBuffer st). printable c"
    and "length (searchBuffer st) \<le> length (output' st)"
    and "int (length (output' st)) + max 0 length' \<le> capacity maxLen"
  shows "apply_backref maxLen offsetBits offset length' st \<noteq> Done OutOfMemory"
proof (cases "offset > int (length (searchBuffer st)) \<or> length' = 0")
  case True
  then show ?thesis by (simp add: apply_backref_def)
next
  case False
  let ?n = "int (length (searchBuffer st))"
  let ?copy = "copy_loop maxLen (?n - offset) length' 0 (output' st) (searchBuffer st)"
  from False have le: "offset \<le> ?n" by simp
  have w: "wrap64 (?n - offset) = ?n - offset"
    using le assms(1,2) by (intro wrap64_id) linarith+
  have "\<exists>out sb. ?copy = Copied out sb"
  proof (cases "0 < offset \<and> 0 \<le> length'")
    case False
    then have "\<not> 0 < length' \<or> int (length (searchBuffer st)) \<le> (?n - offset) + 0"
      using assms(1) by auto
    from copy_loop_stop [OF this] show ?thesis by blast
  next
    case True
    have "0 \<le> (?n - offset) + 0" "(?n - offset) + 0 < ?n" "0 \<le> length'"
      using True le by simp_all
    moreover have "int (length (output' st)) + (length' - 0) \<le> capacity maxLen"
      "?n + (length' - 0) \<le> capacity maxLen"
      using assms(4,5) True by simp_all
    ultimately show ?thesis using copy_loop_full [OF _ _ _ assms(3)] by blast
  qed
  then obtain out sb where "?copy = Copied out sb" by blast
  with False w show ?thesis
    by (simp add: apply_backref_def split: option.splits)
qed

section \<open>Rounds and the loop\<close>

lemma backref_token_cases:
  assumes "backref_token maxLen bitStream offsetBits lengthBits st = Continue st'"
  obtains offset length' q where
    "parse_backref bitStream offsetBits lengthBits (position st) = Some (offset, length', q)"
    "apply_backref maxLen offsetBits offset length' (st\<lparr>position := q\<rparr>) = Continue st'"
proof -
  from assms
  have c: "\<not> wrap64 (wrap64 (position st + offsetBits) + lengthBits) > int (length bitStream)"
    by (auto simp: backref_token_def split: if_splits)
  with assms obtain t where
    t: "parse_backref bitStream offsetBits lengthBits (position st) = Some t"
    by (cases "parse_backref bitStream offsetBits lengthBits (position st)")
       (auto simp: backref_token_def)
  obtain offset length' q where "t = (offset, length', q)" by (cases t)
  with assms c t that show ?thesis by (simp add: backref_token_def)
qed

lemma step_cases:
  assumes "step maxLen bitStream offsetBits lengthBits st = Continue st'"
  obtains
    (literal) "0 \<le> position st" "position st < int (length bitStream)"
      "bitStream ! nat (position st) = CHR ''0''"
      "literal_token bitStream offsetBits (st\<lparr>position := position st + 1\<rparr>) = Continue st'"
  | (backref) "0 \<le> position st" "position st < int (length bitStream)"
      "bitStream ! nat (position st) = CHR ''1''"
      "backref_token maxLen bitStream offsetBits lengthBits (st\<lparr>position := position st + 1\<rparr>)
         = Continue st'"
  | (other) "0 \<le> position st" "position st < int (length bitStream)"
      "bitStream ! nat (position st) \<noteq> CHR ''0''" "bitStream ! nat (position st) \<noteq> CHR ''1''"
      "st' = st\<lparr>position := position st + 1\<rparr>"
proof -
  from assms have l: "position st < int (length bitStream)"
    by (auto simp: step_def split: if_splits)
  have n: "0 \<le> position st"
  proof (rule ccontr)
    assume "\<not> 0 \<le> position st"
    with l assms step_negative [of st bitStream maxLen offsetBits lengthBits] show False by simp
  qed
  note u = step_unfold [OF n l, of maxLen offsetBits lengthBits]
  show ?thesis
  proof (cases "bitStream ! nat (position st) = CHR ''0''")
    case True
    with u assms literal n l show ?thesis by simp
  next
    case False
    show ?thesis
    proof (cases "bitStream ! nat (position st) = CHR ''1''")
      case True
      with u assms backref n l show ?thesis by simp
    next
      case f: False
      with False u assms other n l show ?thesis by simp
    qed
  qed
qed

lemma step_window:
  assumes "step maxLen bitStream offsetBits lengthBits st = Continue st'"
    and "int (length (searchBuffer st)) \<le> max 0 (shl1 offsetBits)"
    and "\<forall>c \<in> set (searchBuffer st). printable c"
  shows "int (length (searchBuffer st')) \<le> max 0 (shl1 offsetBits)"
  using assms(1)
proof (cases rule: step_cases)
  case literal
  from literal_token_window [OF literal(4)] assms(2) show ?thesis by simp
next
  case backref
  from backref(4) obtain offset length' q where
    p: "parse_backref bitStream offsetBits lengthBits (position st + 1) = Some (offset, length', q)"
    and a: "apply_backref maxLen offsetBits offset length' (st\<lparr>position := position st + 1, position := q\<rparr>)
         = Continue st'"
    by (rule backref_token_cases) simp_all
  from parse_backref_range [OF p] have "length' < 2 ^ 63" by simp
  from apply_backref_window [OF a this] assms(2,3) show ?thesis by simp
next
  case other
  with assms(2) show ?thesis by simp
qed

lemma step_printable:
  assumes "step maxLen bitStream offsetBits lengthBits st = Continue st'"
    and "\<forall>c \<in> set (output' st) \<union> set (searchBuffer st). printable c"
  shows "\<forall>c \<in> set (output' st') \<union> set (searchBuffer st'). printable c"
  using assms(1)
proof (cases rule: step_cases)
  case literal
  from literal_token_printable [OF literal(4)] assms(2) show ?thesis by simp
next
  case backref
  from backref(4) obtain offset length' q where
    a: "apply_backref maxLen offsetBits offset length' (st\<lparr>position := position st + 1, position := q\<rparr>)
         = Continue st'"
    by (rule backref_token_cases) simp_all
  from apply_backref_printable [OF a] assms(2) show ?thesis by simp
next
  case other
  with assms(2) show ?thesis by simp
qed

lemma step_cursor_bounds:
  assumes "step maxLen bitStream offsetBits lengthBits st = Continue st'"
  shows "0 \<le> position st \<and> position st < position st'"
  using assms step_cursor [OF assms] by (cases rule: step_cases) simp_all

text \<open>An invariant of the rounds holds at every head of the loop.\<close>

lemma loop_heads_unfold:
  "loop_heads maxLen bitStream offsetBits lengthBits st =
     st # (if position st < int (length bitStream)
           then (case step maxLen bitStream offsetBits lengthBits st of
                   Continue st' \<Rightarrow> loop_heads maxLen bitStream offsetBits lengthBits st'
                 | Done r \<Rightarrow> [])
           else [])"
  by (rule loop_heads.simps)

lemma loop_heads_end:
  "\<not> position st < int (length bitStream) \<Longrightarrow>
     loop_heads maxLen bitStream offsetBits lengthBits st = [st]"
  by (subst loop_heads_unfold) simp

lemma loop_heads_done:
  "position st < int (length bitStream) \<Longrightarrow> step maxLen bitStream offsetBits lengthBits st = Done r \<Longrightarrow>
     loop_heads maxLen bitStream offsetBits lengthBits st = [st]"
  by (subst loop_heads_unfold) simp

lemma loop_heads_continue:
  "position st < int (length bitStream) \<Longrightarrow>
   step maxLen bitStream offsetBits lengthBits st = Continue st' \<Longrightarrow>
     loop_heads maxLen bitStream offsetBits lengthBits st
       = st # loop_heads maxLen bitStream offsetBits lengthBits st'"
  by (subst loop_heads_unfold) simp

lemma decode_loop_end:
  "\<not> position st < int (length bitStream) \<Longrightarrow>
     decode_loop maxLen bitStream offsetBits lengthBits st = Returned (output' st) None"
  by (subst decode_loop.simps) simp

lemma decode_loop_done:
  "position st < int (length bitStream) \<Longrightarrow> step maxLen bitStream offsetBits lengthBits st = Done r \<Longrightarrow>
     decode_loop maxLen bitStream offsetBits lengthBits st = r"
  by (subst decode_loop.simps) simp

lemma decode_loop_continue:
  "position st < int (length bitStream) \<Longrightarrow>
   step maxLen bitStream offsetBits lengthBits st = Continue st' \<Longrightarrow>
     decode_loop maxLen bitStream offsetBits lengthBits st
       = decode_loop maxLen bitStream offsetBits lengthBits st'"
  by (subst decode_loop.simps) simp

lemma loop_heads_invariant:
  assumes "P st0"
    and "\<And>st st'. P st \<Longrightarrow> step maxLen bitStream offsetBits lengthBits st = Continue st' \<Longrightarrow> P st'"
  shows "\<forall>st \<in> set (loop_heads maxLen bitStream offsetBits lengthBits st0). P st"
  using assms
proof (induction maxLen bitStream offsetBits lengthBits st0 rule: loop_heads.induct)
  case (1 maxLen bitStream offsetBits lengthBits st)
  show ?case
  proof (cases "position st < int (length bitStream)")
    case False
    with "1.prems"(1) show ?thesis by (simp add: loop_heads_end)
  next
    case True
    show ?thesis
    proof (cases "step maxLen bitStream offsetBits lengthBits st")
      case (Done r)
      with True "1.prems"(1) show ?thesis by (simp add: loop_heads_done)
    next
      case (Continue st')
      from "1.prems"(2) [OF "1.prems"(1) Continue] have "P st'" .
      have "\<forall>st \<in> set (loop_heads maxLen bitStream offsetBits lengthBits st'). P st"
        by (rule "1.IH" [OF True Continue \<open>P st'\<close>]) (blast intro: "1.prems"(2))
      with True Continue "1.prems"(1) show ?thesis by (simp add: loop_heads_continue)
    qed
  qed
qed

text \<open>The output returned is the output of some head of the loop.\<close>

lemma decode_loop_returned:
  "decode_loop maxLen bitStream offsetBits lengthBits st0 = Returned out err \<Longrightarrow>
     \<exists>st \<in> set (loop_heads maxLen bitStream offsetBits lengthBits st0). out = output' st"
proof (induction maxLen bitStream offsetBits lengthBits st0 rule: decode_loop.induct)
  case (1 maxLen bitStream offsetBits lengthBits st)
  show ?case
  proof (cases "position st < int (length bitStream)")
    case False
    with "1.prems" show ?thesis by (simp add: decode_loop_end loop_heads_end)
  next
    case True
    show ?thesis
    proof (cases "step maxLen bitStream offsetBits lengthBits st")
      case (Done r)
      with True "1.prems" have "r = Returned out err" by (simp add: decode_loop_done)
      with step_done [OF Done True] have "out = output' st" by auto
      with True Done show ?thesis by (simp add: loop_heads_done)
    next
      case (Continue st')
      with True "1.prems" have "decode_loop maxLen bitStream offsetBits lengthBits st' = Returned out err"
        by (simp add: decode_loop_continue)
      from "1.IH" [OF True Continue this] True Continue show ?thesis
        by (simp add: loop_heads_continue)
    qed
  qed
qed

text \<open>From any head of the loop the scan ends as the whole call does.\<close>

lemma decode_loop_from_head:
  "st \<in> set (loop_heads maxLen bitStream offsetBits lengthBits st0) \<Longrightarrow>
     decode_loop maxLen bitStream offsetBits lengthBits st = decode_loop maxLen bitStream offsetBits lengthBits st0"
proof (induction maxLen bitStream offsetBits lengthBits st0 rule: loop_heads.induct)
  case (1 maxLen bitStream offsetBits lengthBits st0)
  show ?case
  proof (cases "st = st0")
    case True
    then show ?thesis by simp
  next
    case False
    have l: "position st0 < int (length bitStream)"
    proof (rule ccontr)
      assume "\<not> position st0 < int (length bitStream)"
      with "1.prems" False show False by (simp add: loop_heads_end)
    qed
    obtain st' where c: "step maxLen bitStream offsetBits lengthBits st0 = Continue st'"
    proof (cases "step maxLen bitStream offsetBits lengthBits st0")
      case (Done r)
      with l "1.prems" False show ?thesis by (simp add: loop_heads_done)
    qed
    from l c "1.prems" False
    have m: "st \<in> set (loop_heads maxLen bitStream offsetBits lengthBits st')"
      by (simp add: loop_heads_continue)
    from "1.IH" [OF l c m] l c show ?thesis by (simp add: decode_loop_continue)
  qed
qed

text \<open>
  An outcome other than a return that no round reached under an invariant produces is not
  the outcome of the loop.
\<close>

lemma decode_loop_avoids:
  assumes "P st0"
    and "\<And>st st'. P st \<Longrightarrow> step maxLen bitStream offsetBits lengthBits st = Continue st' \<Longrightarrow> P st'"
    and "\<And>st. P st \<Longrightarrow> position st < int (length bitStream) \<Longrightarrow>
           step maxLen bitStream offsetBits lengthBits st \<noteq> Done r0"
    and "r0 = Panic \<or> r0 = OutOfMemory"
  shows "decode_loop maxLen bitStream offsetBits lengthBits st0 \<noteq> r0"
  using assms
proof (induction maxLen bitStream offsetBits lengthBits st0 rule: decode_loop.induct)
  case (1 maxLen bitStream offsetBits lengthBits st)
  show ?case
  proof (cases "position st < int (length bitStream)")
    case False
    with "1.prems"(4) show ?thesis by (auto simp: decode_loop_end)
  next
    case True
    show ?thesis
    proof (cases "step maxLen bitStream offsetBits lengthBits st")
      case (Done r)
      with "1.prems"(3) [OF "1.prems"(1) True] True show ?thesis
        by (auto simp: decode_loop_done)
    next
      case (Continue st')
      from "1.prems"(2) [OF "1.prems"(1) Continue] have "P st'" .
      have "decode_loop maxLen bitStream offsetBits lengthBits st' \<noteq> r0"
        by (rule "1.IH" [OF True Continue \<open>P st'\<close>])
           (erule (1) "1.prems"(2), erule (1) "1.prems"(3), rule "1.prems"(4))
      with True Continue show ?thesis by (simp add: decode_loop_continue)
    qed
  qed
qed

section \<open>The back-reference token in a stream that holds it\<close>

lemma take_drop_length:
  assumes "0 \<le> p" and "0 \<le> n" and "p + n \<le> int (length xs)"
  shows "int (length (take (nat n) (drop (nat p) xs))) = n"
proof -
  have "nat n \<le> length xs - nat p" using assms by linarith
  then show ?thesis using assms(2) by simp
qed

lemma field_bounds:
  assumes "0 \<le> width" and "int (length s) = width"
  shows "bits_loop (width - 1) 0 s 0 < 2 ^ nat width
       \<and> (width \<le> 63 \<longrightarrow> 0 \<le> bits_loop (width - 1) 0 s 0)"
proof (cases "width \<le> 63")
  case True
  have "nat width = length s" using assms(2) [symmetric] by simp
  with field_value [OF assms(1) True assms(2)] binary_value_bounds [of s]
  show ?thesis by simp
next
  case False
  then have "63 \<le> nat width" by simp
  then have "(2 :: int) ^ 63 \<le> 2 ^ nat width" by (simp only: power_increasing_iff)
  moreover have "bits_loop (width - 1) 0 s 0 < 2 ^ 63"
    using bits_loop_range [of 0 "width - 1" 0 s] by simp
  ultimately show ?thesis using False by linarith
qed

lemma backref_token_unfold:
  assumes "0 \<le> position st" and "0 \<le> offsetBits" and "0 \<le> lengthBits"
    and "position st + offsetBits + lengthBits \<le> int (length bitStream)"
    and "int (length bitStream) < 2 ^ 63"
  shows "backref_token maxLen bitStream offsetBits lengthBits st =
     apply_backref maxLen offsetBits
       (bits_loop (offsetBits - 1) 0
          (take (nat offsetBits) (drop (nat (position st)) bitStream)) 0)
       (bits_loop (lengthBits - 1) 0
          (take (nat lengthBits) (drop (nat (position st + offsetBits)) bitStream)) 0)
       (st\<lparr>position := position st + offsetBits + lengthBits\<rparr>)"
proof -
  have w1: "wrap64 (position st + offsetBits) = position st + offsetBits"
    using assms by (intro wrap64_id) linarith+
  have w2: "wrap64 (position st + offsetBits + lengthBits) = position st + offsetBits + lengthBits"
    using assms by (intro wrap64_id) linarith+
  from parse_backref_ok [OF assms] assms(4) show ?thesis
    by (simp add: backref_token_def w1 w2)
qed

lemma backref_token_short:
  assumes "0 \<le> position st" and "0 \<le> offsetBits" and "0 \<le> lengthBits"
    and "position st + offsetBits + lengthBits < 2 ^ 63"
    and "int (length bitStream) < position st + offsetBits + lengthBits"
  shows "backref_token maxLen bitStream offsetBits lengthBits st =
     Done (Returned (output' st) (Some (IncompleteBackReference (position st))))"
proof -
  have w1: "wrap64 (position st + offsetBits) = position st + offsetBits"
    using assms by (intro wrap64_id) linarith+
  have w2: "wrap64 (position st + offsetBits + lengthBits) = position st + offsetBits + lengthBits"
    using assms by (intro wrap64_id) linarith+
  from assms(5) show ?thesis by (simp add: backref_token_def w1 w2)
qed

text \<open>
  A round at a flag \<^verbatim>\<open>'1'\<close> whose body is in the stream parses the two fields and
  applies the back-reference, the cursor past the flag and the body.
\<close>

lemma step_backref:
  assumes "0 \<le> position st" and "position st < int (length bitStream)"
    and "bitStream ! nat (position st) = CHR ''1''"
    and "0 \<le> offsetBits" and "0 \<le> lengthBits"
    and "position st + 1 + offsetBits + lengthBits \<le> int (length bitStream)"
    and "int (length bitStream) < 2 ^ 63"
    and "parse_backref bitStream offsetBits lengthBits (position st + 1) = Some (offset, length', q)"
  shows "step maxLen bitStream offsetBits lengthBits st =
     apply_backref maxLen offsetBits offset length'
       (st\<lparr>position := position st + 1 + offsetBits + lengthBits\<rparr>)"
proof -
  let ?st1 = "st\<lparr>position := position st + 1\<rparr>"
  have s: "step maxLen bitStream offsetBits lengthBits st
      = backref_token maxLen bitStream offsetBits lengthBits ?st1"
    using assms(3) by (simp add: step_unfold [OF assms(1,2)])
  have n: "0 \<le> position ?st1" using assms(1) by simp
  have room: "position ?st1 + offsetBits + lengthBits \<le> int (length bitStream)"
    using assms(6) by simp
  have "0 \<le> position st + 1" using assms(1) by simp
  from parse_backref_ok [OF this assms(4,5,6,7)] assms(8)
  have "offset = bits_loop (offsetBits - 1) 0
          (take (nat offsetBits) (drop (nat (position st + 1)) bitStream)) 0"
    and "length' = bits_loop (lengthBits - 1) 0
          (take (nat lengthBits) (drop (nat (position st + 1 + offsetBits)) bitStream)) 0"
    by simp_all
  with backref_token_unfold [OF n assms(4,5) room assms(7), of maxLen] s show ?thesis by simp
qed

section \<open>Rounds that cannot panic or run out of memory\<close>

lemma backref_token_no_panic:
  assumes "0 \<le> position st" and "position st \<le> int (length bitStream)"
    and "0 \<le> offsetBits" and "offsetBits \<le> 62" and "0 \<le> lengthBits"
    and "int (length bitStream) + offsetBits + lengthBits < 2 ^ 63"
    and "int (length (searchBuffer st)) \<le> max 0 (shl1 offsetBits)"
    and "\<forall>c \<in> set (searchBuffer st). printable c"
  shows "backref_token maxLen bitStream offsetBits lengthBits st \<noteq> Done Panic"
proof (cases "position st + offsetBits + lengthBits > int (length bitStream)")
  case True
  have "position st + offsetBits + lengthBits < 2 ^ 63" using assms by linarith
  from backref_token_short [OF assms(1,3,5) this True] show ?thesis by simp
next
  case False
  then have room: "position st + offsetBits + lengthBits \<le> int (length bitStream)" by simp
  have len: "int (length bitStream) < 2 ^ 63" using assms by linarith
  let ?obits = "take (nat offsetBits) (drop (nat (position st)) bitStream)"
  let ?lbits = "take (nat lengthBits) (drop (nat (position st + offsetBits)) bitStream)"
  let ?st2 = "st\<lparr>position := position st + offsetBits + lengthBits\<rparr>"
  have "int (length ?obits) = offsetBits"
    using assms(1,3,5) room by (intro take_drop_length) linarith+
  from field_bounds [OF assms(3) this] assms(4)
  have o: "0 \<le> bits_loop (offsetBits - 1) 0 ?obits 0" by simp
  have l: "bits_loop (lengthBits - 1) 0 ?lbits 0 < 2 ^ 63"
    using bits_loop_range [of 0 "lengthBits - 1" 0] by simp
  have "max 0 (shl1 offsetBits) = 2 ^ nat offsetBits"
    using assms(3,4) by (simp add: shl1_small)
  with assms(7) have w: "int (length (searchBuffer ?st2)) \<le> 2 ^ nat offsetBits" by simp
  have p: "\<forall>c \<in> set (searchBuffer ?st2). printable c" using assms(8) by simp
  from apply_backref_no_panic [OF o assms(3,4) l w p]
  show ?thesis by (simp add: backref_token_unfold [OF assms(1,3,5) room len])
qed

lemma step_no_panic:
  assumes "0 \<le> position st" and "position st < int (length bitStream)"
    and "0 \<le> offsetBits" and "offsetBits \<le> 62" and "0 \<le> lengthBits"
    and "int (length bitStream) + offsetBits + lengthBits < 2 ^ 63"
    and "int (length (searchBuffer st)) \<le> max 0 (shl1 offsetBits)"
    and "\<forall>c \<in> set (searchBuffer st). printable c"
  shows "step maxLen bitStream offsetBits lengthBits st \<noteq> Done Panic"
proof -
  let ?st1 = "st\<lparr>position := position st + 1\<rparr>"
  have a: "0 \<le> position ?st1" "position ?st1 \<le> int (length bitStream)"
    "int (length (searchBuffer ?st1)) \<le> max 0 (shl1 offsetBits)"
    "\<forall>c \<in> set (searchBuffer ?st1). printable c"
    using assms by simp_all
  from literal_token_no_panic [OF a(1) assms(3), of bitStream]
    backref_token_no_panic [OF a(1,2) assms(3,4,5,6) a(3,4), of maxLen]
  show ?thesis by (simp add: step_unfold [OF assms(1,2)])
qed

text \<open>
  A literal adds at most one byte to the output, and the search buffer stays no longer
  than the output.
\<close>

lemma literal_token_growth:
  assumes "literal_token bitStream offsetBits st = Continue st'"
    and "length (searchBuffer st) \<le> length (output' st)"
  shows "length (output' st') \<le> length (output' st) + 1
       \<and> length (searchBuffer st') \<le> length (output' st')"
proof -
  from assms(1) consider
      "searchBuffer st' = searchBuffer st" "output' st' = output' st"
    | c where "output' st' = output' st @ [c]"
        "trim_literal offsetBits (searchBuffer st @ [c]) = Some (searchBuffer st')"
    by (auto simp: literal_token_def Let_def split: if_splits option.splits)
  then show ?thesis
  proof cases
    case 1
    with assms(2) show ?thesis by simp
  next
    case 2
    from trim_literal_result [OF 2(2)]
    have "length (searchBuffer st') \<le> length (searchBuffer st) + 1"
      by (auto split: if_splits)
    with 2(1) assms(2) show ?thesis by simp
  qed
qed

lemma step_buffer:
  assumes "step maxLen bitStream offsetBits lengthBits st = Continue st'"
    and "\<forall>c \<in> set (searchBuffer st). printable c"
    and "length (searchBuffer st) \<le> length (output' st)"
  shows "length (searchBuffer st') \<le> length (output' st')"
  using assms(1)
proof (cases rule: step_cases)
  case literal
  from literal_token_growth [OF literal(4)] assms(3) show ?thesis by simp
next
  case other
  with assms(3) show ?thesis by simp
next
  case backref
  from backref(4) obtain offset length' q where
    a: "apply_backref maxLen offsetBits offset length'
          (st\<lparr>position := position st + 1, position := q\<rparr>) = Continue st'"
    by (rule backref_token_cases) simp
  from apply_backref_growth [OF a] assms(2,3) show ?thesis by simp
qed

text \<open>
  A round adds at most \<open>2 ^ lengthBits\<close> bytes to the output: one for a literal, fewer
  than \<open>2 ^ lengthBits\<close> for a back-reference.
\<close>

lemma step_growth:
  assumes "step maxLen bitStream offsetBits lengthBits st = Continue st'"
    and "0 \<le> offsetBits" and "0 \<le> lengthBits"
    and "int (length bitStream) + offsetBits + lengthBits < 2 ^ 63"
    and "\<forall>c \<in> set (searchBuffer st). printable c"
    and "length (searchBuffer st) \<le> length (output' st)"
  shows "int (length (output' st')) \<le> int (length (output' st)) + 2 ^ nat lengthBits
       \<and> length (searchBuffer st') \<le> length (output' st')"
  using assms(1)
proof (cases rule: step_cases)
  case literal
  have "(1 :: int) \<le> 2 ^ nat lengthBits" by simp
  moreover from literal_token_growth [OF literal(4)] assms(6)
  have "length (output' st') \<le> length (output' st) + 1"
    and b: "length (searchBuffer st') \<le> length (output' st')" by simp_all
  then have "int (length (output' st')) \<le> int (length (output' st)) + 1" by linarith
  ultimately have "int (length (output' st')) \<le> int (length (output' st)) + 2 ^ nat lengthBits"
    by linarith
  with b show ?thesis by simp
next
  case other
  have "(0 :: int) \<le> 2 ^ nat lengthBits" by simp
  with other assms(6) show ?thesis by simp
next
  case backref
  let ?st1 = "st\<lparr>position := position st + 1\<rparr>"
  let ?p = "position st + 1"
  let ?lbits = "take (nat lengthBits) (drop (nat (?p + offsetBits)) bitStream)"
  let ?length = "bits_loop (lengthBits - 1) 0 ?lbits 0"
  have len: "int (length bitStream) < 2 ^ 63" using assms(2,3,4) by linarith
  have n: "0 \<le> position ?st1" using backref(1) by simp
  have room: "position ?st1 + offsetBits + lengthBits \<le> int (length bitStream)"
  proof (rule ccontr)
    assume "\<not> position ?st1 + offsetBits + lengthBits \<le> int (length bitStream)"
    then have "int (length bitStream) < position ?st1 + offsetBits + lengthBits" by simp
    moreover have "position ?st1 + offsetBits + lengthBits < 2 ^ 63"
      using backref(2) assms(4) by simp
    ultimately show False
      using backref_token_short [OF n assms(2,3), of bitStream maxLen] backref(4) by simp
  qed
  from backref(4) backref_token_unfold [OF n assms(2,3) room len, of maxLen]
  obtain offset where
    a: "apply_backref maxLen offsetBits offset ?length
          (?st1\<lparr>position := position ?st1 + offsetBits + lengthBits\<rparr>) = Continue st'"
    by simp
  have "int (length ?lbits) = lengthBits"
    using assms(2,3) room backref(1) by (intro take_drop_length) simp_all
  from field_bounds [OF assms(3) this] have l: "?length < 2 ^ nat lengthBits" by simp
  have "(0 :: int) \<le> 2 ^ nat lengthBits" by simp
  with l have m: "max 0 ?length \<le> 2 ^ nat lengthBits" by simp
  from apply_backref_growth [OF a] assms(5,6)
  have g: "int (length (output' st')) \<le> int (length (output' st)) + max 0 ?length"
    and h: "length (searchBuffer st') \<le> length (output' st')" by simp_all
  from g m have "int (length (output' st')) \<le> int (length (output' st)) + 2 ^ nat lengthBits"
    by linarith
  with h show ?thesis by simp
qed

lemma step_no_exhaustion:
  assumes "0 \<le> position st" and "position st < int (length bitStream)"
    and "0 \<le> offsetBits" and "offsetBits \<le> 62" and "0 \<le> lengthBits"
    and "int (length bitStream) + offsetBits + lengthBits < 2 ^ 63"
    and "int (length (searchBuffer st)) \<le> max 0 (shl1 offsetBits)"
    and "\<forall>c \<in> set (searchBuffer st). printable c"
    and "length (searchBuffer st) \<le> length (output' st)"
    and "int (length (output' st)) + 2 ^ nat lengthBits \<le> capacity maxLen"
  shows "step maxLen bitStream offsetBits lengthBits st \<noteq> Done OutOfMemory"
proof -
  let ?st1 = "st\<lparr>position := position st + 1\<rparr>"
  note u = step_unfold [OF assms(1,2), of maxLen offsetBits lengthBits]
  have lit: "literal_token bitStream offsetBits ?st1 \<noteq> Done OutOfMemory"
    using literal_token_done [of bitStream offsetBits ?st1 OutOfMemory] by auto
  have ref: "backref_token maxLen bitStream offsetBits lengthBits ?st1 \<noteq> Done OutOfMemory"
  proof (cases "position ?st1 + offsetBits + lengthBits > int (length bitStream)")
    case True
    have n: "0 \<le> position ?st1" using assms(1) by simp
    have "position ?st1 + offsetBits + lengthBits < 2 ^ 63" using assms(2,6) by simp
    from backref_token_short [OF n assms(3,5) this True] show ?thesis by simp
  next
    case False
    then have room: "position ?st1 + offsetBits + lengthBits \<le> int (length bitStream)" by simp
    have n: "0 \<le> position ?st1" using assms(1) by simp
    have len: "int (length bitStream) < 2 ^ 63" using assms(3,5,6) by linarith
    let ?obits = "take (nat offsetBits) (drop (nat (position ?st1)) bitStream)"
    let ?lbits = "take (nat lengthBits) (drop (nat (position ?st1 + offsetBits)) bitStream)"
    let ?st2 = "?st1\<lparr>position := position ?st1 + offsetBits + lengthBits\<rparr>"
    have "int (length ?obits) = offsetBits"
      using assms(1,3,5) room by (intro take_drop_length) simp_all
    from field_bounds [OF assms(3) this] assms(4)
    have o: "0 \<le> bits_loop (offsetBits - 1) 0 ?obits 0" by simp
    have "int (length ?lbits) = lengthBits"
      using assms(1,3,5) room by (intro take_drop_length) simp_all
    from field_bounds [OF assms(5) this]
    have l: "bits_loop (lengthBits - 1) 0 ?lbits 0 < 2 ^ nat lengthBits" by simp
    have "(2 :: int) ^ nat offsetBits \<le> 2 ^ 62"
      using assms(3,4) by (simp only: power_increasing_iff)
    moreover have "max 0 (shl1 offsetBits) = 2 ^ nat offsetBits"
      using assms(3,4) by (simp add: shl1_small)
    moreover have "(2 :: int) ^ 62 < 2 ^ 63" by simp
    moreover have "int (length (searchBuffer ?st2)) \<le> max 0 (shl1 offsetBits)"
      using assms(7) by simp
    ultimately have w: "int (length (searchBuffer ?st2)) < 2 ^ 63" by linarith
    have p: "\<forall>c \<in> set (searchBuffer ?st2). printable c" using assms(8) by simp
    have q: "length (searchBuffer ?st2) \<le> length (output' ?st2)" using assms(9) by simp
    have "(0 :: int) \<le> 2 ^ nat lengthBits" by simp
    with l have "max 0 (bits_loop (lengthBits - 1) 0 ?lbits 0) \<le> 2 ^ nat lengthBits" by simp
    moreover have "int (length (output' ?st2)) = int (length (output' st))" by simp
    ultimately
    have m: "int (length (output' ?st2)) + max 0 (bits_loop (lengthBits - 1) 0 ?lbits 0) \<le> capacity maxLen"
      using assms(10) by linarith
    from apply_backref_no_exhaustion [OF o w p q m]
    show ?thesis by (simp add: backref_token_unfold [OF n assms(3,5) room len])
  qed
  from lit ref show ?thesis by (simp add: u)
qed

section \<open>One literal of a literal-only stream\<close>

lemma length_char_bits: "length (char_bits c) = 8"
  by (simp add: char_bits_def)

lemma step_literal_stream:
  assumes "printable c" and "0 \<le> offsetBits" and "position st = int (length pre)"
  shows "\<exists>sb. step maxLen (pre @ CHR ''0'' # char_bits c @ rest) offsetBits lengthBits st
     = Continue \<lparr>output' = output' st @ [c], searchBuffer = sb,
                 position = int (length (pre @ CHR ''0'' # char_bits c))\<rparr>"
proof -
  let ?bs = "pre @ CHR ''0'' # char_bits c @ rest"
  let ?st1 = "st\<lparr>position := position st + 1\<rparr>"
  have p: "0 \<le> position st" "position st < int (length ?bs)" using assms(3) by simp_all
  have f: "?bs ! nat (position st) = CHR ''0''" using assms(3) by simp
  have s: "step maxLen ?bs offsetBits lengthBits st = literal_token ?bs offsetBits ?st1"
    using f by (simp add: step_unfold [OF p])
  have "nat (position ?st1) = length (pre @ [CHR ''0''])" using assms(3) by simp
  then have "drop (nat (position ?st1)) ?bs = char_bits c @ rest"
    by (simp del: append.simps add: drop_append)
  then have b: "take 8 (drop (nat (position ?st1)) ?bs) = char_bits c"
    by (simp add: length_char_bits)
  have code: "binary_value (char_bits c) = of_char c" by (rule char_bits_value)
  have pr: "32 \<le> (of_char c :: int) \<and> (of_char c :: int) \<le> 126"
    using assms(1) by (simp add: printable_def)
  have q: "0 \<le> position ?st1" "position ?st1 + 8 \<le> int (length ?bs)"
    using assms(3) by (simp_all add: length_char_bits)
  from trim_literal_no_panic [OF assms(2), of "searchBuffer st" c]
  obtain sb where t: "trim_literal offsetBits (searchBuffer st @ [c]) = Some sb" by blast
  have "literal_token ?bs offsetBits ?st1
      = Continue (?st1\<lparr>position := position ?st1 + 8, output' := output' st @ [c],
                       searchBuffer := sb\<rparr>)"
    using literal_token_unfold [OF q, of offsetBits] pr t
    unfolding b code Let_def by simp
  also have "\<dots> = Continue \<lparr>output' = output' st @ [c], searchBuffer = sb,
                 position = int (length (pre @ CHR ''0'' # char_bits c))\<rparr>"
    using assms(3) by (cases st) (simp add: length_char_bits)
  finally show ?thesis using s by simp
qed

lemma decode_loop_literal_stream:
  assumes "\<forall>c \<in> set s. printable c" and "0 \<le> offsetBits"
    and "position st = int (length pre)"
  shows "decode_loop maxLen (pre @ literal_stream s) offsetBits lengthBits st
     = Returned (output' st @ s) None"
  using assms
proof (induction s arbitrary: pre st)
  case Nil
  then show ?case by (simp add: decode_loop_end)
next
  case (Cons c s)
  let ?bs = "pre @ CHR ''0'' # char_bits c @ literal_stream s"
  let ?pre = "pre @ CHR ''0'' # char_bits c"
  from Cons.prems have c: "printable c" by simp
  from step_literal_stream [OF c Cons.prems(2,3),
      where rest = "literal_stream s" and maxLen = maxLen and lengthBits = lengthBits]
  obtain sb where
    st: "step maxLen ?bs offsetBits lengthBits st
      = Continue \<lparr>output' = output' st @ [c], searchBuffer = sb, position = int (length ?pre)\<rparr>"
    by blast
  let ?st' = "\<lparr>output' = output' st @ [c], searchBuffer = sb, position = int (length ?pre)\<rparr>"
  have l: "position st < int (length ?bs)" using Cons.prems(3) by simp
  have "decode_loop maxLen (?pre @ literal_stream s) offsetBits lengthBits ?st'
      = Returned (output' ?st' @ s) None"
    using Cons.prems(1,2) by (intro Cons.IH) simp_all
  then have "decode_loop maxLen ?bs offsetBits lengthBits ?st' = Returned (output' st @ c # s) None"
    by simp
  with decode_loop_continue [OF l st] show ?case by simp
qed

section \<open>The heads of the loop of a call\<close>

text \<open>
  What holds at every head of the loop of a call: the cursor is not negative, the search
  buffer is within the window and no longer than the output, and both strings hold
  printable bytes.
\<close>

lemma loop_heads_reached:
  "\<forall>st \<in> set (loop_heads maxLen bitStream offsetBits lengthBits init_state).
     0 \<le> position st
     \<and> int (length (searchBuffer st)) \<le> max 0 (shl1 offsetBits)
     \<and> length (searchBuffer st) \<le> length (output' st)
     \<and> (\<forall>c \<in> set (output' st) \<union> set (searchBuffer st). printable c)"
proof (rule loop_heads_invariant)
  show "0 \<le> position init_state
     \<and> int (length (searchBuffer init_state)) \<le> max 0 (shl1 offsetBits)
     \<and> length (searchBuffer init_state) \<le> length (output' init_state)
     \<and> (\<forall>c \<in> set (output' init_state) \<union> set (searchBuffer init_state). printable c)"
    by (simp add: init_state_def)
next
  fix st st' :: state
  assume inv: "0 \<le> position st
     \<and> int (length (searchBuffer st)) \<le> max 0 (shl1 offsetBits)
     \<and> length (searchBuffer st) \<le> length (output' st)
     \<and> (\<forall>c \<in> set (output' st) \<union> set (searchBuffer st). printable c)"
    and c: "step maxLen bitStream offsetBits lengthBits st = Continue st'"
  from inv have w: "int (length (searchBuffer st)) \<le> max 0 (shl1 offsetBits)"
    and l: "length (searchBuffer st) \<le> length (output' st)"
    and p: "\<forall>c \<in> set (output' st) \<union> set (searchBuffer st). printable c"
    by simp_all
  from p have q: "\<forall>c \<in> set (searchBuffer st). printable c" by simp
  from step_cursor_bounds [OF c] step_window [OF c w q] step_buffer [OF c q l]
    step_printable [OF c p]
  show "0 \<le> position st'
     \<and> int (length (searchBuffer st')) \<le> max 0 (shl1 offsetBits)
     \<and> length (searchBuffer st') \<le> length (output' st')
     \<and> (\<forall>c \<in> set (output' st') \<union> set (searchBuffer st'). printable c)"
    by simp
qed

lemma loop_heads_cursor:
  "st \<in> set (loop_heads maxLen bitStream offsetBits lengthBits init_state) \<Longrightarrow> 0 \<le> position st"
  using loop_heads_reached [of maxLen bitStream offsetBits lengthBits] by blast

lemma loop_heads_window:
  "st \<in> set (loop_heads maxLen bitStream offsetBits lengthBits init_state) \<Longrightarrow>
     int (length (searchBuffer st)) \<le> max 0 (shl1 offsetBits)"
  using loop_heads_reached [of maxLen bitStream offsetBits lengthBits] by blast

lemma loop_heads_buffer:
  "st \<in> set (loop_heads maxLen bitStream offsetBits lengthBits init_state) \<Longrightarrow>
     length (searchBuffer st) \<le> length (output' st)"
  using loop_heads_reached [of maxLen bitStream offsetBits lengthBits] by blast

lemma loop_heads_printable:
  "st \<in> set (loop_heads maxLen bitStream offsetBits lengthBits init_state) \<Longrightarrow>
     \<forall>c \<in> set (output' st) \<union> set (searchBuffer st). printable c"
  using loop_heads_reached [of maxLen bitStream offsetBits lengthBits] by blast

section \<open>The writes of a round agree with its result\<close>

lemma step_unfold_slice:
  assumes "0 \<le> position st" and "position st < int (length bitStream)"
  shows "slice bitStream (position st) (position st + 1) = Some [bitStream ! nat (position st)]"
proof -
  have "nat (position st) < length bitStream" using assms by linarith
  from Cons_nth_drop_Suc [OF this, symmetric]
  have "take 1 (drop (nat (position st)) bitStream) = [bitStream ! nat (position st)]"
    by simp
  then show ?thesis using assms by (simp add: slice_def)
qed

lemma last_writes_append: "last (x # xs @ ys) = last (last (x # xs) # ys)"
  by (cases ys) simp_all

lemma copy_writes_last:
  "copy_loop maxLen startPos length' i out sb = Copied out' sb' \<Longrightarrow>
     last (sb # copy_writes maxLen startPos length' i out sb) = sb'"
proof (induction maxLen startPos length' i out sb rule: copy_loop.induct)
  case (1 maxLen startPos length' i out sb)
  let ?c = "sb ! nat (startPos + i)"
  let ?go = "i < length' \<and> \<not> int (length sb) \<le> startPos + i \<and> \<not> startPos + i < 0
      \<and> \<not> (int (length (out @ [?c])) > capacity maxLen \<or> int (length (sb @ string_of_byte ?c)) > capacity maxLen)"
  show ?case
  proof (cases ?go)
    case False
    with "1.prems" show ?thesis
      by (auto simp: copy_loop.simps [of maxLen startPos length' i out sb]
            copy_writes.simps [of maxLen startPos length' i out sb] split: if_splits)
  next
    case True
    from True "1.prems"
    have r: "copy_loop maxLen startPos length' (i + 1) (out @ [?c]) (sb @ string_of_byte ?c)
        = Copied out' sb'"
      by (simp add: copy_loop.simps [of maxLen startPos length' i out sb])
    from True have "i < length'" "\<not> int (length sb) \<le> startPos + i" "\<not> startPos + i < 0"
      "\<not> (int (length (out @ [?c])) > capacity maxLen \<or> int (length (sb @ string_of_byte ?c)) > capacity maxLen)"
      by simp_all
    from "1.IH" [OF this r] True show ?thesis
      by (simp add: copy_writes.simps [of maxLen startPos length' i out sb])
  qed
qed

lemma trim_literal_writes_last:
  "trim_literal offsetBits sb = Some sb' \<Longrightarrow>
     last (sb # trim_literal_writes offsetBits sb) = sb'"
  by (auto simp: trim_literal_def trim_literal_writes_def split: if_splits)

lemma trim_backref_writes_last:
  "trim_backref offsetBits sb = Some sb' \<Longrightarrow>
     last (sb # trim_backref_writes offsetBits sb) = sb'"
  by (auto simp: trim_backref_def trim_backref_writes_def split: if_splits)

lemma literal_writes_last:
  assumes "literal_token bitStream offsetBits st = Continue st'"
  shows "last (searchBuffer st # literal_writes bitStream offsetBits st) = searchBuffer st'"
proof -
  from assms have c: "\<not> position st + 8 > int (length bitStream)"
    by (auto simp: literal_token_def split: if_splits)
  with assms obtain literalBits where
    s: "slice bitStream (position st) (position st + 8) = Some literalBits"
    by (cases "slice bitStream (position st) (position st + 8)") (auto simp: literal_token_def)
  let ?code = "bits_loop 7 0 literalBits 0"
  show ?thesis
  proof (cases "32 \<le> ?code \<and> ?code \<le> 126")
    case False
    with assms c s show ?thesis
      by (auto simp: literal_token_def literal_writes_def Let_def)
  next
    case True
    let ?sb = "searchBuffer st @ [char_of ?code]"
    from assms c s True obtain sb' where
      t: "trim_literal offsetBits ?sb = Some sb'" and "searchBuffer st' = sb'"
      by (cases "trim_literal offsetBits ?sb") (auto simp: literal_token_def Let_def)
    with trim_literal_writes_last [OF t] c s True show ?thesis
      by (simp add: literal_writes_def Let_def)
  qed
qed

lemma apply_backref_writes_last:
  assumes "apply_backref maxLen offsetBits offset length' st = Continue st'"
  shows "last (searchBuffer st # apply_backref_writes maxLen offsetBits offset length' st)
     = searchBuffer st'"
  using assms
proof (cases rule: apply_backref_cases)
  case skip
  then show ?thesis by (simp add: apply_backref_writes_def)
next
  case (copy out sb sb')
  from copy_writes_last [OF copy(3)] trim_backref_writes_last [OF copy(4)] copy(1,2,3,5)
  show ?thesis
    by (simp add: apply_backref_writes_def last_writes_append del: last.simps)
qed

lemma backref_writes_last:
  assumes "backref_token maxLen bitStream offsetBits lengthBits st = Continue st'"
  shows "last (searchBuffer st # backref_writes maxLen bitStream offsetBits lengthBits st)
     = searchBuffer st'"
proof -
  from assms
  have c: "\<not> wrap64 (wrap64 (position st + offsetBits) + lengthBits) > int (length bitStream)"
    by (auto simp: backref_token_def split: if_splits)
  from assms obtain offset length' q where
    p: "parse_backref bitStream offsetBits lengthBits (position st) = Some (offset, length', q)"
    and a: "apply_backref maxLen offsetBits offset length' (st\<lparr>position := q\<rparr>) = Continue st'"
    by (rule backref_token_cases)
  from apply_backref_writes_last [OF a] c p show ?thesis
    by (simp add: backref_writes_def)
qed

text \<open>
  The list of writes agrees with the rounds: after a round that goes on, the search buffer
  is the last value written in the round, or unchanged when the round wrote none.
\<close>

lemma step_writes_last:
  assumes "step maxLen bitStream offsetBits lengthBits st = Continue st'"
  shows "last (searchBuffer st # step_writes maxLen bitStream offsetBits lengthBits st)
     = searchBuffer st'"
  using assms
proof (cases rule: step_cases)
  case literal
  from step_unfold_slice [OF literal(1,2)] literal(3)
  have "slice bitStream (position st) (position st + 1) = Some ''0''" by simp
  with literal_writes_last [OF literal(4)] literal(2) show ?thesis
    by (simp add: step_writes_def)
next
  case backref
  from step_unfold_slice [OF backref(1,2)] backref(3)
  have "slice bitStream (position st) (position st + 1) = Some ''1''" by simp
  with backref_writes_last [OF backref(4)] backref(2) show ?thesis
    by (simp add: step_writes_def)
next
  case other
  from step_unfold_slice [OF other(1,2)] other show ?thesis
    by (simp add: step_writes_def)
qed

section \<open>A back-reference that outgrows the memory\<close>

text \<open>
  A back-reference asks for up to \<open>2 ^ lengthBits - 1\<close> bytes, whatever the length of
  the bitstream. The 74 bytes below are the literal \<open>A\<close> and a back-reference with offset
  1 and length \<open>2 ^ 62 - 1\<close>, for \<open>offsetBits = 2\<close> and \<open>lengthBits = 62\<close>: the copy
  reads the bytes it appends and does not stop early, so with memory for less than
  \<open>2 ^ 62\<close> bytes the call does not return.
\<close>

lemma long_copy_literal:
  "step maxLen ''00100000110111111111111111111111111111111111111111111111111111111111111111'' 2 62 init_state
     = Continue \<lparr>output' = ''A'', searchBuffer = ''A'', position = 9\<rparr>"
proof -
  let ?bs = "''00100000110111111111111111111111111111111111111111111111111111111111111111''"
  have a: "0 \<le> position init_state" "position init_state < int (length ?bs)"
    "?bs ! nat (position init_state) = CHR ''0''"
    by (simp_all add: init_state_def)
  have "literal_token ?bs 2 (init_state\<lparr>position := position init_state + 1\<rparr>)
      = Continue \<lparr>output' = ''A'', searchBuffer = ''A'', position = 9\<rparr>"
    by code_simp
  with step_unfold [OF a(1,2), of maxLen 2 62] a(3) show ?thesis by simp
qed

lemma long_copy_head:
  "\<lparr>output' = ''A'', searchBuffer = ''A'', position = 9\<rparr>
     \<in> set (loop_heads maxLen ''00100000110111111111111111111111111111111111111111111111111111111111111111'' 2 62 init_state)"
proof -
  let ?bs = "''00100000110111111111111111111111111111111111111111111111111111111111111111''"
  let ?st = "\<lparr>output' = ''A'', searchBuffer = ''A'', position = 9\<rparr>"
  have "position init_state < int (length ?bs)" by (simp add: init_state_def)
  from loop_heads_continue [OF this long_copy_literal]
  have "loop_heads maxLen ?bs 2 62 init_state = init_state # loop_heads maxLen ?bs 2 62 ?st" .
  moreover have "?st \<in> set (loop_heads maxLen ?bs 2 62 ?st)"
    by (subst loop_heads_unfold) simp
  ultimately show ?thesis by simp
qed

lemma long_copy_fields:
  "parse_backref ''00100000110111111111111111111111111111111111111111111111111111111111111111'' 2 62 10 = Some (1, 2 ^ 62 - 1, 74)"
  by code_simp

lemma backref_outgrows_memory:
  assumes "maxLen < 2 ^ 62"
  shows "decodeLZ77 maxLen ''00100000110111111111111111111111111111111111111111111111111111111111111111'' 2 62 = OutOfMemory"
proof -
  let ?bs = "''00100000110111111111111111111111111111111111111111111111111111111111111111''"
  let ?st = "\<lparr>output' = ''A'', searchBuffer = ''A'', position = 9\<rparr>"
  let ?st2 = "\<lparr>output' = ''A'', searchBuffer = ''A'', position = 74\<rparr>"
  have p: "parse_backref ?bs 2 62 (position ?st + 1) = Some (1, 2 ^ 62 - 1, 74)"
    using long_copy_fields by simp
  have h: "0 \<le> position ?st" "position ?st < int (length ?bs)"
    "?bs ! nat (position ?st) = CHR ''1''" "(0 :: int) \<le> 2" "(0 :: int) \<le> 62"
    "position ?st + 1 + 2 + 62 \<le> int (length ?bs)" "int (length ?bs) < 2 ^ 63"
    by simp_all
  from step_backref [OF h p, of maxLen]
  have s: "step maxLen ?bs 2 62 ?st = apply_backref maxLen 2 1 (2 ^ 62 - 1) ?st2" by simp
  have "capacity maxLen < 2 ^ 62" using assms by (simp add: capacity_def)
  then have "capacity maxLen < int (length ''A'') + (2 ^ 62 - 1 - 0)" by simp
  moreover have "0 \<le> (0 :: int) + 0" "(0 :: int) + 0 < int (length ''A'')"
    "(0 :: int) < 2 ^ 62 - 1"
    by simp_all
  ultimately have "copy_loop maxLen 0 (2 ^ 62 - 1) 0 ''A'' ''A'' = MemoryExhausted"
    by (intro copy_loop_exhausts)
  moreover have "wrap64 0 = 0" by (simp add: wrap64_def)
  ultimately have "apply_backref maxLen 2 1 (2 ^ 62 - 1) ?st2 = Done OutOfMemory"
    by (simp add: apply_backref_def)
  with s have second: "step maxLen ?bs 2 62 ?st = Done OutOfMemory" by simp
  have "decode_loop maxLen ?bs 2 62 ?st = OutOfMemory"
    using decode_loop_done [OF h(2) second] .
  moreover have "position init_state < int (length ?bs)" by (simp add: init_state_def)
  ultimately show ?thesis
    using decode_loop_continue [OF _ long_copy_literal] by (simp add: decodeLZ77_def)
qed

section \<open>The claims of the specification\<close>

subsection \<open>The end of the stream\<close>

text \<open>
  Claim C1, as the specification states it, fails: on the empty bitstream the condition of
  line 40 is false at once, the check of line 42 is never reached, and the call returns
  the empty output with no error.
\<close>

theorem decode_empty_stream_no_error:
  "decodeLZ77 1024 [] 9 3 = Returned [] None
   \<and> decodeLZ77 1024 [] 9 3 \<noteq> Returned [] (Some (UnexpectedEndOfStream 0))"
  by code_simp

text \<open>
  Claim C1, amended: when the cursor at the head of the loop has no room for one more flag
  bit, the scan stops and returns the output produced so far with no error; this holds in
  particular for the empty bitstream, which gives the empty output; and no call returns
  the error \<open>UnexpectedEndOfStream\<close>, whatever the output and the position.
\<close>

theorem decode_end_of_stream_is_success:
  "(int (length bitStream) \<le> position st \<longrightarrow>
      decode_loop maxLen bitStream offsetBits lengthBits st = Returned (output' st) None)
   \<and> decodeLZ77 maxLen [] offsetBits lengthBits = Returned [] None
   \<and> decodeLZ77 maxLen bitStream offsetBits lengthBits \<noteq> Returned out (Some (UnexpectedEndOfStream p))"
proof (intro conjI impI)
  assume "int (length bitStream) \<le> position st"
  then show "decode_loop maxLen bitStream offsetBits lengthBits st = Returned (output' st) None"
    by (rule decode_loop_at_end)
next
  have "int (length ([] :: string)) \<le> position init_state" by (simp add: init_state_def)
  from decode_loop_at_end [OF this]
  show "decodeLZ77 maxLen [] offsetBits lengthBits = Returned [] None"
    by (simp add: decodeLZ77_def init_state_def)
next
  show "decodeLZ77 maxLen bitStream offsetBits lengthBits \<noteq> Returned out (Some (UnexpectedEndOfStream p))"
    unfolding decodeLZ77_def by (rule decode_loop_no_ueos)
qed

text \<open>
  The amended claim C1 at the 9-bit stream of the literal \<open>A\<close>, with the cursor at its end.
\<close>

theorem decode_end_of_stream_is_success_witness:
  "int (length ''001000001'') \<le> position \<lparr>output' = ''A'', searchBuffer = ''A'', position = 9\<rparr>
   \<and> decode_loop 1024 ''001000001'' 9 3 \<lparr>output' = ''A'', searchBuffer = ''A'', position = 9\<rparr>
       = Returned ''A'' None
   \<and> decodeLZ77 1024 [] 9 3 = Returned [] None
   \<and> decodeLZ77 1024 ''001000001'' 9 3 \<noteq> Returned ''A'' (Some (UnexpectedEndOfStream 9))"
  using decode_end_of_stream_is_success [of "''001000001''"
      "\<lparr>output' = ''A'', searchBuffer = ''A'', position = 9\<rparr>" 1024 9 3 "''A''" 9]
  by simp

subsection \<open>The window bound\<close>

text \<open>
  Claim C2, as the specification states it, fails: with \<open>offsetBits = 0\<close> the window is
  one byte, and the second literal of the stream for \<open>AB\<close> makes the search buffer two
  bytes long at line 71, before line 75 drops the first one.
\<close>

theorem searchBuffer_exceeds_window_inside_token:
  "searchBuffer_values 1024 ''001000001001000010'' 0 0 = [[], ''A'', ''AB'', ''B'']
   \<and> \<not> within_window 0 ''AB''"
  by code_simp

text \<open>
  Claim C2, amended: for every bitstream, every non-negative \<open>offsetBits\<close> and every
  \<open>lengthBits\<close>, at every token boundary of a call (each time the condition of the loop
  is evaluated, after the trim of the token before) the search buffer holds at most
  \<open>2 ^ offsetBits\<close> bytes.
\<close>

theorem searchBuffer_window_at_token_boundaries:
  assumes "0 \<le> offsetBits"
  shows "list_all (within_window offsetBits)
           (map searchBuffer (loop_heads maxLen bitStream offsetBits lengthBits init_state))"
proof -
  have inv: "\<forall>st \<in> set (loop_heads maxLen bitStream offsetBits lengthBits init_state).
          int (length (searchBuffer st)) \<le> max 0 (shl1 offsetBits)"
    using loop_heads_window by blast
  have bound: "max 0 (shl1 offsetBits) \<le> 2 ^ nat offsetBits"
    using shl1_le_power [OF assms] by simp
  have "within_window offsetBits sb"
    if "sb \<in> set (map searchBuffer (loop_heads maxLen bitStream offsetBits lengthBits init_state))"
    for sb
  proof -
    from that obtain st where
      "st \<in> set (loop_heads maxLen bitStream offsetBits lengthBits init_state)" "sb = searchBuffer st"
      by auto
    with inv have "int (length sb) \<le> max 0 (shl1 offsetBits)" by blast
    then show ?thesis unfolding within_window_def using bound by (rule order_trans)
  qed
  then show ?thesis unfolding list_all_iff by blast
qed

text \<open>The amended claim C2 on the stream for \<open>AB\<close> with a window of one byte.\<close>

theorem searchBuffer_window_at_token_boundaries_witness:
  "(0 :: int) \<le> 0
   \<and> list_all (within_window 0)
         (map searchBuffer (loop_heads 1024 ''001000001001000010'' 0 0 init_state))"
  using searchBuffer_window_at_token_boundaries [of 0 1024 "''001000001001000010''" 0]
  by simp

subsection \<open>Literal-only streams decode to their text\<close>

text \<open>
  Claim C3: for every string of printable ASCII characters and every \<open>offsetBits \<ge> 0\<close>
  (and every \<open>lengthBits\<close>), the bitstream that holds, for each character, the flag
  \<^verbatim>\<open>'0'\<close> and the 8 bits of its code, the most significant first, decodes to the
  string itself with no error.
\<close>

theorem literal_stream_round_trip:
  assumes "\<forall>c \<in> set s. printable c" and "0 \<le> offsetBits"
  shows "decodeLZ77 maxLen (literal_stream s) offsetBits lengthBits = Returned s None"
  using decode_loop_literal_stream [OF assms,
      where st = init_state and pre = "[]" and maxLen = maxLen and lengthBits = lengthBits]
  by (simp add: decodeLZ77_def init_state_def)

text \<open>Claim C3 on an 11-character string, with the widths 9 and 3 of \<^verbatim>\<open>main\<close>.\<close>

theorem literal_stream_round_trip_witness:
  "list_all printable ''Voynich f1r'' \<and> (0 :: int) \<le> 9
   \<and> decodeLZ77 1024 (literal_stream ''Voynich f1r'') 9 3 = Returned ''Voynich f1r'' None"
proof -
  have h: "\<forall>c \<in> set ''Voynich f1r''. printable c" by (simp add: printable_def)
  from literal_stream_round_trip [OF h, of 9 1024 3] h show ?thesis by (simp add: list_all_iff)
qed

subsection \<open>Back-references that copy nothing\<close>

text \<open>
  Claim C4: at a token boundary \<open>st\<close> of a call with \<open>0 \<le> offsetBits \<le> 62\<close> and
  \<open>lengthBits \<ge> 0\<close>, a back-reference token (flag \<^verbatim>\<open>'1'\<close> and its
  \<open>offsetBits + lengthBits\<close> bytes in the stream) whose parsed fields satisfy
  \<open>offset = 0\<close> or \<open>length = 0\<close> or \<open>offset\<close> greater than the length of the search
  buffer emits nothing to the output and nothing to the search buffer and raises no error:
  the round returns the same state with the cursor past the flag and the body, and the scan
  goes on from there.
\<close>

theorem invalid_backref_is_skipped:
  assumes "st \<in> set (loop_heads maxLen bitStream offsetBits lengthBits init_state)"
    and "position st < int (length bitStream)"
    and "bitStream ! nat (position st) = CHR ''1''"
    and "0 \<le> offsetBits" and "offsetBits \<le> 62" and "0 \<le> lengthBits"
    and "position st + 1 + offsetBits + lengthBits \<le> int (length bitStream)"
    and "int (length bitStream) < 2 ^ 63"
    and "parse_backref bitStream offsetBits lengthBits (position st + 1) = Some (offset, length', q)"
    and "offset = 0 \<or> length' = 0 \<or> offset > int (length (searchBuffer st))"
  shows "step maxLen bitStream offsetBits lengthBits st
     = Continue (st\<lparr>position := position st + 1 + offsetBits + lengthBits\<rparr>)"
proof -
  let ?p = "position st + 1"
  let ?st1 = "st\<lparr>position := ?p\<rparr>"
  let ?st2 = "st\<lparr>position := ?p + offsetBits + lengthBits\<rparr>"
  let ?n = "int (length (searchBuffer st))"
  note n = loop_heads_cursor [OF assms(1)]
  have win: "?n \<le> 2 ^ nat offsetBits"
    using loop_heads_window [OF assms(1)] assms(4,5) by (simp add: shl1_small)
  have "(2 :: int) ^ nat offsetBits \<le> 2 ^ 62"
    using assms(4,5) by (simp only: power_increasing_iff)
  with win have small: "?n \<le> 2 ^ 62" by linarith
  have s: "step maxLen bitStream offsetBits lengthBits st
      = backref_token maxLen bitStream offsetBits lengthBits ?st1"
    using assms(3) by (simp add: step_unfold [OF n assms(2)])
  have w1: "wrap64 (?p + offsetBits) = ?p + offsetBits"
    using n assms by (intro wrap64_id) linarith+
  have w2: "wrap64 (?p + offsetBits + lengthBits) = ?p + offsetBits + lengthBits"
    using n assms by (intro wrap64_id) linarith+
  have "0 \<le> ?p" using n by simp
  from parse_backref_ok [OF this assms(4,6,7,8)] assms(9)
  have q: "q = ?p + offsetBits + lengthBits" by simp
  have b: "backref_token maxLen bitStream offsetBits lengthBits ?st1
      = apply_backref maxLen offsetBits offset length' ?st2"
    using assms(7,9) q by (simp add: backref_token_def w1 w2)
  have "apply_backref maxLen offsetBits offset length' ?st2 = Continue ?st2"
  proof (cases "offset > ?n \<or> length' = 0")
    case True
    then show ?thesis by (simp add: apply_backref_def)
  next
    case False
    with assms(10) have z: "offset = 0" by simp
    have w: "wrap64 ?n = ?n" using small by (intro wrap64_id) simp_all
    have c: "copy_loop maxLen ?n length' 0 (output' st) (searchBuffer st)
        = Copied (output' st) (searchBuffer st)"
      by (rule copy_loop_stop) simp
    have "(0 :: int) < 2 ^ 63" by simp
    with win have "?n < 2 ^ nat offsetBits + 2 ^ 63" by linarith
    from trim_backref_small [OF assms(4,5) this] win
    have t: "trim_backref offsetBits (searchBuffer st) = Some (searchBuffer st)" by simp
    from False z w c t show ?thesis by (simp add: apply_backref_def)
  qed
  with s b show ?thesis by simp
qed

text \<open>
  Claim C4 on the literal \<open>A\<close> followed by a back-reference with offset 0 and length 1.
\<close>

theorem invalid_backref_is_skipped_witness:
  "step 1024 ''00100000110001'' 2 2 \<lparr>output' = ''A'', searchBuffer = ''A'', position = 9\<rparr>
     = Continue \<lparr>output' = ''A'', searchBuffer = ''A'', position = 14\<rparr>
   \<and> parse_backref ''00100000110001'' 2 2 10 = Some (0, 1, 14)"
proof -
  let ?bs = "''00100000110001''"
  let ?st = "\<lparr>output' = ''A'', searchBuffer = ''A'', position = 9\<rparr>"
  have h1: "?st \<in> set (loop_heads 1024 ?bs 2 2 init_state)" by code_simp
  have h2: "position ?st < int (length ?bs)" "?bs ! nat (position ?st) = CHR ''1''"
    "(0 :: int) \<le> 2" "(2 :: int) \<le> 62" "(0 :: int) \<le> 2"
    "position ?st + 1 + 2 + 2 \<le> int (length ?bs)" "int (length ?bs) < 2 ^ 63"
    by simp_all
  have h3: "parse_backref ?bs 2 2 (position ?st + 1) = Some (0, 1, 14)" by code_simp
  have h4: "(0 :: int) = 0 \<or> (1 :: int) = 0 \<or> 0 > int (length (searchBuffer ?st))" by simp
  from invalid_backref_is_skipped [OF h1 h2 h3 h4] h3 show ?thesis by simp
qed

subsection \<open>Tokens cut short\<close>

text \<open>
  Claim C5: at a token boundary \<open>st\<close> of a call, inside the stream, after a flag
  \<^verbatim>\<open>'0'\<close> with fewer than 8 bytes left the call returns the error
  \<open>IncompleteLiteral\<close> with the cursor after the flag; after a flag \<^verbatim>\<open>'1'\<close> with fewer
  than \<open>offsetBits + lengthBits\<close> bytes left (the widths non-negative and the sum of
  line 81 below \<open>2 ^ 63\<close>) it returns \<open>IncompleteBackReference\<close> with the cursor after
  the flag. In both cases the result of the whole call is this error together with the
  output accumulated up to the boundary: the scan has stopped there.
\<close>

theorem incomplete_token_errors:
  assumes "st \<in> set (loop_heads maxLen bitStream offsetBits lengthBits init_state)"
    and "position st < int (length bitStream)"
  shows "(bitStream ! nat (position st) = CHR ''0'' \<and> int (length bitStream) < position st + 1 + 8 \<longrightarrow>
            decodeLZ77 maxLen bitStream offsetBits lengthBits
              = Returned (output' st) (Some (IncompleteLiteral (position st + 1))))
       \<and> (bitStream ! nat (position st) = CHR ''1'' \<and> 0 \<le> offsetBits \<and> 0 \<le> lengthBits
            \<and> position st + 1 + offsetBits + lengthBits < 2 ^ 63
            \<and> int (length bitStream) < position st + 1 + offsetBits + lengthBits \<longrightarrow>
            decodeLZ77 maxLen bitStream offsetBits lengthBits
              = Returned (output' st) (Some (IncompleteBackReference (position st + 1))))"
proof -
  note n = loop_heads_cursor [OF assms(1)]
  note u = step_unfold [OF n assms(2), of maxLen offsetBits lengthBits]
  have d: "decodeLZ77 maxLen bitStream offsetBits lengthBits = r"
    if "step maxLen bitStream offsetBits lengthBits st = Done r" for r
    using decode_loop_from_head [OF assms(1)] decode_loop_done [OF assms(2) that]
    by (simp add: decodeLZ77_def)
  have lit: "decodeLZ77 maxLen bitStream offsetBits lengthBits
              = Returned (output' st) (Some (IncompleteLiteral (position st + 1)))"
    if "bitStream ! nat (position st) = CHR ''0''" "int (length bitStream) < position st + 1 + 8"
    using that u by (intro d) (simp add: literal_token_def)
  have ref: "decodeLZ77 maxLen bitStream offsetBits lengthBits
              = Returned (output' st) (Some (IncompleteBackReference (position st + 1)))"
    if f: "bitStream ! nat (position st) = CHR ''1''" and w: "0 \<le> offsetBits" "0 \<le> lengthBits"
      and o: "position st + 1 + offsetBits + lengthBits < 2 ^ 63"
      and s: "int (length bitStream) < position st + 1 + offsetBits + lengthBits"
  proof -
    have w1: "wrap64 (position st + 1 + offsetBits) = position st + 1 + offsetBits"
      using n w o by (intro wrap64_id) linarith+
    have w2: "wrap64 (position st + 1 + offsetBits + lengthBits)
        = position st + 1 + offsetBits + lengthBits"
      using n w o by (intro wrap64_id) linarith+
    show ?thesis using f s u by (intro d) (simp add: backref_token_def w1 w2)
  qed
  from lit ref show ?thesis by blast
qed

text \<open>
  Claim C5 on the literal \<open>A\<close> followed by a flag \<^verbatim>\<open>'0'\<close> and three bits, and by a
  flag \<^verbatim>\<open>'1'\<close> and three bits.
\<close>

theorem incomplete_token_errors_witness:
  "decodeLZ77 1024 ''0010000010010'' 9 3 = Returned ''A'' (Some (IncompleteLiteral 10))
   \<and> decodeLZ77 1024 ''0010000011000'' 9 3 = Returned ''A'' (Some (IncompleteBackReference 10))"
proof -
  let ?st = "\<lparr>output' = ''A'', searchBuffer = ''A'', position = 9\<rparr>"
  have a1: "?st \<in> set (loop_heads 1024 ''0010000010010'' 9 3 init_state)" by code_simp
  have a2: "position ?st < int (length ''0010000010010'')" by simp
  have b1: "?st \<in> set (loop_heads 1024 ''0010000011000'' 9 3 init_state)" by code_simp
  have b2: "position ?st < int (length ''0010000011000'')" by simp
  from incomplete_token_errors [OF a1 a2]
  have a: "decodeLZ77 1024 ''0010000010010'' 9 3 = Returned ''A'' (Some (IncompleteLiteral 10))"
    by simp
  from incomplete_token_errors [OF b1 b2]
  have b: "decodeLZ77 1024 ''0010000011000'' 9 3 = Returned ''A'' (Some (IncompleteBackReference 10))"
    by simp
  from a b show ?thesis by simp
qed

subsection \<open>Back-references that copy\<close>

text \<open>
  Claim C6: at a token boundary \<open>st\<close> of a call with \<open>0 \<le> offsetBits \<le> 62\<close> and
  \<open>lengthBits \<ge> 0\<close>, take a back-reference token (flag \<^verbatim>\<open>'1'\<close> and its
  \<open>offsetBits + lengthBits\<close> bytes in the stream) whose parsed fields are \<open>offset\<close> and
  \<open>length > 0\<close>. When \<open>0 < offset \<le>\<close> the length of the search buffer and the memory
  has room for \<open>length\<close> more bytes of output, the round appends \<open>length\<close> bytes
  \<open>ext\<close> to the output and to the search buffer, one at a time: byte \<open>k\<close> is the byte
  at index \<open>startPos + k\<close> of the search buffer as it has grown by then, with \<open>startPos\<close>
  the length of the search buffer before the token minus \<open>offset\<close>, so that a copy longer
  than \<open>offset\<close> reads bytes that the same token has appended. The round then moves the
  cursor past the token and keeps the last \<open>2 ^ offsetBits\<close> bytes of the search buffer.
  When the memory has no room for \<open>length\<close> more bytes of output, the copy ends the
  program, out of memory. The source index of a copy with \<open>0 < offset\<close> stays below the
  length of the growing search buffer; it reaches that length only for \<open>offset = 0\<close>, in
  the first round of the copy: the copy stops there by line 113, and the round goes on
  without an error, nothing copied. And the loop of the copy, wherever it stands, stops
  with what it has, without an error, when its source index has reached the length of the
  search buffer.
\<close>

theorem valid_backref_copy:
  assumes "st \<in> set (loop_heads maxLen bitStream offsetBits lengthBits init_state)"
    and "position st < int (length bitStream)"
    and "bitStream ! nat (position st) = CHR ''1''"
    and "0 \<le> offsetBits" and "offsetBits \<le> 62" and "0 \<le> lengthBits"
    and "position st + 1 + offsetBits + lengthBits \<le> int (length bitStream)"
    and "int (length bitStream) < 2 ^ 63"
    and "parse_backref bitStream offsetBits lengthBits (position st + 1) = Some (offset, length', q)"
    and "0 < length'"
  shows "(0 < offset \<and> offset \<le> int (length (searchBuffer st))
          \<and> int (length (output' st)) + length' \<le> capacity maxLen \<longrightarrow>
            (\<exists>ext. int (length ext) = length'
               \<and> (\<forall>k < length ext.
                     ext ! k = (searchBuffer st @ ext)
                                 ! nat (int (length (searchBuffer st)) - offset + int k))
               \<and> step maxLen bitStream offsetBits lengthBits st =
                   Continue (st\<lparr>position := position st + 1 + offsetBits + lengthBits,
                               output' := output' st @ ext,
                               searchBuffer :=
                                 (if int (length (searchBuffer st @ ext)) > 2 ^ nat offsetBits
                                  then drop (length (searchBuffer st @ ext) - 2 ^ nat offsetBits)
                                         (searchBuffer st @ ext)
                                  else searchBuffer st @ ext)\<rparr>)))
       \<and> (0 < offset \<and> offset \<le> int (length (searchBuffer st))
          \<and> capacity maxLen < int (length (output' st)) + length' \<longrightarrow>
            step maxLen bitStream offsetBits lengthBits st = Done OutOfMemory)
       \<and> (offset = 0 \<longrightarrow>
            step maxLen bitStream offsetBits lengthBits st =
              Continue (st\<lparr>position := position st + 1 + offsetBits + lengthBits\<rparr>))
       \<and> (\<forall>startPos i out sb. i < length' \<and> int (length sb) \<le> startPos + i \<longrightarrow>
             copy_loop maxLen startPos length' i out sb = Copied out sb)"
proof -
  let ?st2 = "st\<lparr>position := position st + 1 + offsetBits + lengthBits\<rparr>"
  let ?n = "int (length (searchBuffer st))"
  let ?m = "int (length (output' st))"
  note n = loop_heads_cursor [OF assms(1)]
  have win: "?n \<le> 2 ^ nat offsetBits"
    using loop_heads_window [OF assms(1)] assms(4,5) by (simp add: shl1_small)
  have "(2 :: int) ^ nat offsetBits \<le> 2 ^ 62"
    using assms(4,5) by (simp only: power_increasing_iff)
  with win have small: "?n \<le> 2 ^ 62" by linarith
  have pr: "\<forall>c \<in> set (searchBuffer st). printable c"
    using loop_heads_printable [OF assms(1)] by simp
  have le: "?n \<le> ?m" using loop_heads_buffer [OF assms(1)] by simp
  note s = step_backref [OF n assms(2,3,4,6,7,8,9), of maxLen]
  have "(2 :: int) ^ 62 < 2 ^ 63" by simp
  with small have lt: "?n < 2 ^ 63" by linarith
  have w: "wrap64 (?n - offset) = ?n - offset" if "0 \<le> offset" "offset \<le> ?n"
    using that lt by (intro wrap64_id) linarith+
  have copies: "\<exists>ext. int (length ext) = length'
      \<and> (\<forall>k < length ext. ext ! k = (searchBuffer st @ ext) ! nat (?n - offset + int k))
      \<and> step maxLen bitStream offsetBits lengthBits st =
          Continue (st\<lparr>position := position st + 1 + offsetBits + lengthBits,
                      output' := output' st @ ext,
                      searchBuffer :=
                        (if int (length (searchBuffer st @ ext)) > 2 ^ nat offsetBits
                         then drop (length (searchBuffer st @ ext) - 2 ^ nat offsetBits)
                                (searchBuffer st @ ext)
                         else searchBuffer st @ ext)\<rparr>)"
    if v: "0 < offset" "offset \<le> ?n" and room: "?m + length' \<le> capacity maxLen"
  proof -
    have "0 \<le> (?n - offset) + 0" "(?n - offset) + 0 < ?n" "0 \<le> length'"
      using v assms(10) by simp_all
    moreover have "?m + (length' - 0) \<le> capacity maxLen" "?n + (length' - 0) \<le> capacity maxLen"
      using room le by simp_all
    ultimately obtain ext where
      e: "copy_loop maxLen (?n - offset) length' 0 (output' st) (searchBuffer st)
            = Copied (output' st @ ext) (searchBuffer st @ ext)"
         "int (length ext) = length' - 0"
         "\<forall>k < length ext. ext ! k = (searchBuffer st @ ext) ! nat (?n - offset + 0 + int k)"
      using copy_loop_full [OF _ _ _ pr, of "?n - offset" 0 length' "output' st" maxLen] by blast
    have "capacity maxLen < 2 ^ 63" by (simp add: capacity_def)
    moreover have "int (length (searchBuffer st @ ext)) \<le> capacity maxLen"
      using e(2) room le by simp
    moreover have "(0 :: int) \<le> 2 ^ nat offsetBits" by simp
    ultimately have "int (length (searchBuffer st @ ext)) < 2 ^ nat offsetBits + 2 ^ 63"
      by linarith
    note t = trim_backref_small [OF assms(4,5) this]
    have "\<not> (offset > ?n \<or> length' = 0)" using v assms(10) by simp
    then have "apply_backref maxLen offsetBits offset length' ?st2 =
        Continue (?st2\<lparr>output' := output' st @ ext,
                      searchBuffer :=
                        (if int (length (searchBuffer st @ ext)) > 2 ^ nat offsetBits
                         then drop (length (searchBuffer st @ ext) - 2 ^ nat offsetBits)
                                (searchBuffer st @ ext)
                         else searchBuffer st @ ext)\<rparr>)"
      using e(1) t w v by (simp add: apply_backref_def)
    with s e(2,3) show ?thesis by (intro exI [of _ ext]) simp
  qed
  have exhausts: "step maxLen bitStream offsetBits lengthBits st = Done OutOfMemory"
    if v: "0 < offset" "offset \<le> ?n" and full: "capacity maxLen < ?m + length'"
  proof -
    have "0 \<le> (?n - offset) + 0" "(?n - offset) + 0 < ?n" "0 < length'"
      "capacity maxLen < ?m + (length' - 0)"
      using v assms(10) full by simp_all
    from copy_loop_exhausts [OF this]
    have "copy_loop maxLen (?n - offset) length' 0 (output' st) (searchBuffer st)
        = MemoryExhausted" .
    moreover have "\<not> (offset > ?n \<or> length' = 0)" using v assms(10) by simp
    ultimately have "apply_backref maxLen offsetBits offset length' ?st2 = Done OutOfMemory"
      using w v by (simp add: apply_backref_def)
    with s show ?thesis by simp
  qed
  have stops: "step maxLen bitStream offsetBits lengthBits st = Continue ?st2" if z: "offset = 0"
  proof -
    have c: "copy_loop maxLen ?n length' 0 (output' st) (searchBuffer st)
        = Copied (output' st) (searchBuffer st)"
      by (rule copy_loop_stop) simp
    have "(0 :: int) < 2 ^ 63" by simp
    with win have "?n < 2 ^ nat offsetBits + 2 ^ 63" by linarith
    from trim_backref_small [OF assms(4,5) this] win
    have t: "trim_backref offsetBits (searchBuffer st) = Some (searchBuffer st)" by simp
    have "wrap64 ?n = ?n" using small by (intro wrap64_id) simp_all
    with z c t assms(10) have "apply_backref maxLen offsetBits offset length' ?st2 = Continue ?st2"
      by (simp add: apply_backref_def)
    with s show ?thesis by simp
  qed
  have "\<forall>startPos i out sb. i < length' \<and> int (length sb) \<le> startPos + i \<longrightarrow>
          copy_loop maxLen startPos length' i out sb = Copied out sb"
    by (simp add: copy_loop_stop)
  with copies exhausts stops show ?thesis by blast
qed

text \<open>
  Claim C6 on the stream of the literals \<open>A\<close> and \<open>B\<close> and a back-reference with offset 2
  and length 3, with a window of 4 bytes. With memory for 1024 bytes the characterisation
  leaves only \<open>ABA\<close> for the bytes copied, the third one read from the first one copied,
  and the trim keeps \<open>BABA\<close>. On the literal \<open>A\<close> followed by a back-reference with
  offset 1 and length \<open>2 ^ 62 - 1\<close>, with memory for \<open>2 ^ 48\<close> bytes, the round ends
  out of memory. On the literal \<open>A\<close> followed by a back-reference with offset 0 and
  length 1 the copy stops at once; and a copy whose source index is at the end of the
  search buffer stops as it is.
\<close>

theorem valid_backref_copy_witness:
  "step 1024 ''00100000100100001011011'' 2 2
       \<lparr>output' = ''AB'', searchBuffer = ''AB'', position = 18\<rparr>
     = Continue \<lparr>output' = ''ABABA'', searchBuffer = ''BABA'', position = 23\<rparr>
   \<and> parse_backref ''00100000100100001011011'' 2 2 19 = Some (2, 3, 23)
   \<and> step (2 ^ 48) ''00100000110111111111111111111111111111111111111111111111111111111111111111''
       2 62 \<lparr>output' = ''A'', searchBuffer = ''A'', position = 9\<rparr>
     = Done OutOfMemory
   \<and> parse_backref ''00100000110111111111111111111111111111111111111111111111111111111111111111''
       2 62 10 = Some (1, 2 ^ 62 - 1, 74)
   \<and> step 1024 ''00100000110001'' 2 2 \<lparr>output' = ''A'', searchBuffer = ''A'', position = 9\<rparr>
     = Continue \<lparr>output' = ''A'', searchBuffer = ''A'', position = 14\<rparr>
   \<and> parse_backref ''00100000110001'' 2 2 10 = Some (0, 1, 14)
   \<and> copy_loop 1024 2 3 0 ''AB'' ''AB'' = Copied ''AB'' ''AB''"
proof -
  let ?bs = "''00100000100100001011011''"
  let ?st = "\<lparr>output' = ''AB'', searchBuffer = ''AB'', position = 18\<rparr>"
  let ?cs = "''00100000110001''"
  let ?ct = "\<lparr>output' = ''A'', searchBuffer = ''A'', position = 9\<rparr>"
  have h1: "?st \<in> set (loop_heads 1024 ?bs 2 2 init_state)" by code_simp
  have h2: "position ?st < int (length ?bs)" "?bs ! nat (position ?st) = CHR ''1''"
    "(0 :: int) \<le> 2" "(2 :: int) \<le> 62" "(0 :: int) \<le> 2"
    "position ?st + 1 + 2 + 2 \<le> int (length ?bs)" "int (length ?bs) < 2 ^ 63"
    by simp_all
  have h3: "parse_backref ?bs 2 2 (position ?st + 1) = Some (2, 3, 23)" by code_simp
  have h4: "(0 :: int) < 3" by simp
  have g1: "?ct \<in> set (loop_heads 1024 ?cs 2 2 init_state)" by code_simp
  have g2: "position ?ct < int (length ?cs)" "?cs ! nat (position ?ct) = CHR ''1''"
    "(0 :: int) \<le> 2" "(2 :: int) \<le> 62" "(0 :: int) \<le> 2"
    "position ?ct + 1 + 2 + 2 \<le> int (length ?cs)" "int (length ?cs) < 2 ^ 63"
    by simp_all
  have g3: "parse_backref ?cs 2 2 (position ?ct + 1) = Some (0, 1, 14)" by code_simp
  have g4: "(0 :: int) < 1" by simp
  let ?ds = "''00100000110111111111111111111111111111111111111111111111111111111111111111''"
  have k1: "?ct \<in> set (loop_heads (2 ^ 48) ?ds 2 62 init_state)" by (rule long_copy_head)
  have k2: "position ?ct < int (length ?ds)" "?ds ! nat (position ?ct) = CHR ''1''"
    "(0 :: int) \<le> 2" "(2 :: int) \<le> 62" "(0 :: int) \<le> 62"
    "position ?ct + 1 + 2 + 62 \<le> int (length ?ds)" "int (length ?ds) < 2 ^ 63"
    by simp_all
  have k3: "parse_backref ?ds 2 62 (position ?ct + 1) = Some (1, 2 ^ 62 - 1, 74)"
    using long_copy_fields by simp
  have k4: "(0 :: int) < 2 ^ 62 - 1" by simp
  have c1: "capacity 1024 = 1024" and c2: "capacity (2 ^ 48) = 2 ^ 48"
    by (simp_all add: capacity_def)
  from valid_backref_copy [OF h1 h2 h3 h4] c1 obtain ext where
    l: "int (length ext) = 3" and
    k: "\<forall>k < length ext. ext ! k
          = (searchBuffer ?st @ ext) ! nat (int (length (searchBuffer ?st)) - 2 + int k)" and
    r: "step 1024 ?bs 2 2 ?st =
          Continue (?st\<lparr>position := position ?st + 1 + 2 + 2,
                      output' := output' ?st @ ext,
                      searchBuffer :=
                        (if int (length (searchBuffer ?st @ ext)) > 2 ^ nat 2
                         then drop (length (searchBuffer ?st @ ext) - 2 ^ nat 2)
                                (searchBuffer ?st @ ext)
                         else searchBuffer ?st @ ext)\<rparr>)"
    by auto
  from l have "length ext = Suc (Suc (Suc 0))" by simp
  then obtain x y z where e: "ext = [x, y, z]"
    by (auto simp: length_Suc_conv)
  from k [rule_format, of 0] e have x: "x = CHR ''A''" by simp
  from k [rule_format, of 1] e have y: "y = CHR ''B''" by simp
  from k [rule_format, of 2] e x have z: "z = CHR ''A''" by simp
  have ext: "ext = ''ABA''" using e x y z by simp
  from r have a: "step 1024 ?bs 2 2 ?st
      = Continue \<lparr>output' = ''ABABA'', searchBuffer = ''BABA'', position = 23\<rparr>"
    unfolding ext by simp
  from valid_backref_copy [OF k1 k2 k3 k4] c2
  have b: "step (2 ^ 48) ?ds 2 62 ?ct = Done OutOfMemory" by simp
  from valid_backref_copy [OF g1 g2 g3 g4]
  have c: "step 1024 ?cs 2 2 ?ct
      = Continue \<lparr>output' = ''A'', searchBuffer = ''A'', position = 14\<rparr>"
    by simp
  from valid_backref_copy [OF h1 h2 h3 h4]
  have d: "copy_loop 1024 2 3 0 ''AB'' ''AB'' = Copied ''AB'' ''AB''" by simp
  from a b c d h3 g3 k3 show ?thesis by simp
qed

subsection \<open>The printable filter\<close>

text \<open>
  Claim C7: a literal token (flag \<^verbatim>\<open>'0'\<close> and 8 more bytes in the stream) whose
  8-bit big-endian value is outside 32 to 126 appends nothing to the output and nothing to
  the search buffer and raises no error: the round only moves the cursor past the 9 bytes.
  For a value inside 32 to 126 (and \<open>offsetBits \<ge> 0\<close>) the byte is appended to both; the
  search buffer then loses its first byte when it has become longer than
  \<^verbatim>\<open>1 << offsetBits\<close>.
\<close>

theorem literal_printable_filter:
  assumes "0 \<le> position st" and "position st + 9 \<le> int (length bitStream)"
    and "bitStream ! nat (position st) = CHR ''0''"
    and "code = binary_value (take 8 (drop (nat (position st + 1)) bitStream))"
  shows "(\<not> (32 \<le> code \<and> code \<le> 126) \<longrightarrow>
            step maxLen bitStream offsetBits lengthBits st = Continue (st\<lparr>position := position st + 9\<rparr>))
       \<and> (32 \<le> code \<and> code \<le> 126 \<and> 0 \<le> offsetBits \<longrightarrow>
            step maxLen bitStream offsetBits lengthBits st =
              Continue (st\<lparr>position := position st + 9,
                          output' := output' st @ [char_of code],
                          searchBuffer :=
                            (if int (length (searchBuffer st @ [char_of code])) > shl1 offsetBits
                             then drop 1 (searchBuffer st @ [char_of code])
                             else searchBuffer st @ [char_of code])\<rparr>))"
proof -
  let ?st1 = "st\<lparr>position := position st + 1\<rparr>"
  have l: "position st < int (length bitStream)" using assms(2) by simp
  have s: "step maxLen bitStream offsetBits lengthBits st = literal_token bitStream offsetBits ?st1"
    using assms(3) by (simp add: step_unfold [OF assms(1) l])
  have q: "0 \<le> position ?st1" "position ?st1 + 8 \<le> int (length bitStream)"
    using assms(1,2) by simp_all
  have c: "binary_value (take 8 (drop (nat (position ?st1)) bitStream)) = code"
    using assms(4) by simp
  note u = literal_token_unfold [OF q, of offsetBits, unfolded c Let_def]
  have drop: "step maxLen bitStream offsetBits lengthBits st = Continue (st\<lparr>position := position st + 9\<rparr>)"
    if "\<not> (32 \<le> code \<and> code \<le> 126)"
    using u s unfolding if_not_P [OF that] by simp
  have keep: "step maxLen bitStream offsetBits lengthBits st =
      Continue (st\<lparr>position := position st + 9,
                  output' := output' st @ [char_of code],
                  searchBuffer :=
                    (if int (length (searchBuffer st @ [char_of code])) > shl1 offsetBits
                     then drop 1 (searchBuffer st @ [char_of code])
                     else searchBuffer st @ [char_of code])\<rparr>)"
    if p: "32 \<le> code \<and> code \<le> 126" and ob: "0 \<le> offsetBits"
  proof -
    let ?sb = "searchBuffer st @ [char_of code]"
    from trim_literal_no_panic [OF ob, of "searchBuffer st" "char_of code"]
    obtain sb' where t: "trim_literal offsetBits ?sb = Some sb'" by blast
    from trim_literal_result [OF t]
    have "sb' = (if int (length ?sb) > shl1 offsetBits then drop 1 ?sb else ?sb)" by simp
    with u s t show ?thesis unfolding if_P [OF p] by simp
  qed
  from drop keep show ?thesis by blast
qed

text \<open>
  Claim C7 on the stream of the literal 7 (not printable) and the literal 65, the letter
  \<open>A\<close>.
\<close>

theorem literal_printable_filter_witness:
  "step 1024 ''000000111001000001'' 9 3 init_state
     = Continue \<lparr>output' = [], searchBuffer = [], position = 9\<rparr>
   \<and> step 1024 ''000000111001000001'' 9 3 \<lparr>output' = [], searchBuffer = [], position = 9\<rparr>
     = Continue \<lparr>output' = ''A'', searchBuffer = ''A'', position = 18\<rparr>"
proof -
  let ?bs = "''000000111001000001''"
  let ?st = "\<lparr>output' = [], searchBuffer = [], position = 9\<rparr>"
  have a1: "0 \<le> position init_state" "position init_state + 9 \<le> int (length ?bs)"
    "?bs ! nat (position init_state) = CHR ''0''"
    by (simp_all add: init_state_def)
  have a2: "7 = binary_value (take 8 (drop (nat (position init_state + 1)) ?bs))"
    by code_simp
  have b1: "0 \<le> position ?st" "position ?st + 9 \<le> int (length ?bs)"
    "?bs ! nat (position ?st) = CHR ''0''"
    by simp_all
  have b2: "65 = binary_value (take 8 (drop (nat (position ?st + 1)) ?bs))"
    by code_simp
  have s: "shl1 9 = 512" by code_simp
  have c: "char_of (65 :: int) = CHR ''A''" by code_simp
  from literal_printable_filter [OF a1 a2, of 1024 9 3]
  have a: "step 1024 ?bs 9 3 init_state = Continue (init_state\<lparr>position := position init_state + 9\<rparr>)"
    by simp
  from literal_printable_filter [OF b1 b2, of 1024 9 3]
  have "step 1024 ?bs 9 3 ?st = Continue (?st\<lparr>position := position ?st + 9,
                          output' := output' ?st @ [char_of (65 :: int)],
                          searchBuffer :=
                            (if int (length (searchBuffer ?st @ [char_of (65 :: int)])) > shl1 9
                             then drop 1 (searchBuffer ?st @ [char_of (65 :: int)])
                             else searchBuffer ?st @ [char_of (65 :: int)])\<rparr>)"
    by simp
  then have b: "step 1024 ?bs 9 3 ?st = Continue \<lparr>output' = ''A'', searchBuffer = ''A'', position = 18\<rparr>"
    by (simp add: s c)
  from a b show ?thesis by (simp add: init_state_def)
qed

subsection \<open>A flag that is neither 0 nor 1\<close>

text \<open>
  Claim C8: when the byte at the cursor, read as a flag, is neither \<^verbatim>\<open>'0'\<close> nor
  \<^verbatim>\<open>'1'\<close>, the round runs neither branch: it moves the cursor by one, leaves output and
  search buffer as they are, raises no error, and the scan goes on at the next position.
\<close>

theorem unknown_flag_is_skipped:
  assumes "0 \<le> position st" and "position st < int (length bitStream)"
    and "bitStream ! nat (position st) \<noteq> CHR ''0''"
    and "bitStream ! nat (position st) \<noteq> CHR ''1''"
  shows "step maxLen bitStream offsetBits lengthBits st = Continue (st\<lparr>position := position st + 1\<rparr>)"
  using assms by (simp add: step_unfold)

text \<open>Claim C8 on a stream that starts with the byte \<open>2\<close>.\<close>

theorem unknown_flag_is_skipped_witness:
  "0 \<le> position init_state \<and> position init_state < int (length ''2001000001'')
   \<and> ''2001000001'' ! nat (position init_state) \<noteq> CHR ''0''
   \<and> ''2001000001'' ! nat (position init_state) \<noteq> CHR ''1''
   \<and> step 1024 ''2001000001'' 9 3 init_state = Continue (init_state\<lparr>position := position init_state + 1\<rparr>)"
proof -
  have h: "0 \<le> position init_state" "position init_state < int (length ''2001000001'')"
    "''2001000001'' ! nat (position init_state) \<noteq> CHR ''0''"
    "''2001000001'' ! nat (position init_state) \<noteq> CHR ''1''"
    by (simp_all add: init_state_def)
  from unknown_flag_is_skipped [OF h, of 1024 9 3] h show ?thesis by blast
qed

subsection \<open>No panic\<close>

text \<open>
  Claim C9, as the specification states it, fails. The 74 bytes below are the literal
  \<open>A\<close> and a back-reference with offset 1 and length \<open>2 ^ 62 - 1\<close>, for
  \<open>offsetBits = 2\<close> and \<open>lengthBits = 62\<close>, widths at which \<^verbatim>\<open>1 << offsetBits\<close>
  does not overflow. In a run with memory for strings of \<open>2 ^ 48\<close> bytes the copy ends
  the program out of memory: this anomaly is not surfaced as a result value.
\<close>

theorem decode_runs_out_of_memory:
  "decodeLZ77 (2 ^ 48)
     ''00100000110111111111111111111111111111111111111111111111111111111111111111'' 2 62
       = OutOfMemory"
  by (rule backref_outgrows_memory) simp

text \<open>
  Claim C9, amended: for every bitstream, every non-negative \<open>offsetBits\<close> up to 62 (so
  that \<^verbatim>\<open>1 << offsetBits\<close> does not overflow) and every non-negative \<open>lengthBits\<close>
  such that the length of the bitstream plus \<open>offsetBits\<close> plus \<open>lengthBits\<close> stays below
  \<open>2 ^ 63\<close> (so that the sum of line 81 does not overflow either), the call does not
  panic, whatever the memory: every slice and index is within bounds. And when strings of
  the length of the bitstream times \<open>2 ^ lengthBits\<close> fit in memory, the call returns an
  output with \<^verbatim>\<open>nil\<close> or with one of its errors; with less memory a back-reference
  can end the program out of memory.
\<close>

theorem decode_never_panics:
  assumes "0 \<le> offsetBits" and "offsetBits \<le> 62" and "0 \<le> lengthBits"
    and "int (length bitStream) + offsetBits + lengthBits < 2 ^ 63"
  shows "decodeLZ77 maxLen bitStream offsetBits lengthBits \<noteq> Panic
       \<and> (int (length bitStream) * 2 ^ nat lengthBits \<le> capacity maxLen \<longrightarrow>
            (\<exists>out err. decodeLZ77 maxLen bitStream offsetBits lengthBits = Returned out err))"
proof -
  let ?K = "(2 :: int) ^ nat lengthBits"
  let ?P = "\<lambda>st :: state. 0 \<le> position st
      \<and> int (length (searchBuffer st)) \<le> max 0 (shl1 offsetBits)
      \<and> length (searchBuffer st) \<le> length (output' st)
      \<and> (\<forall>c \<in> set (output' st) \<union> set (searchBuffer st). printable c)
      \<and> int (length (output' st)) \<le> position st * ?K"
  have K: "0 \<le> ?K" by simp
  have init: "?P init_state" by (simp add: init_state_def)
  have pres: "?P st'"
    if inv: "?P st" and c: "step maxLen bitStream offsetBits lengthBits st = Continue st'"
    for st st' :: state
  proof -
    from inv have w: "int (length (searchBuffer st)) \<le> max 0 (shl1 offsetBits)"
      and l: "length (searchBuffer st) \<le> length (output' st)"
      and p: "\<forall>c \<in> set (output' st) \<union> set (searchBuffer st). printable c"
      and b: "int (length (output' st)) \<le> position st * ?K"
      by simp_all
    from p have q: "\<forall>c \<in> set (searchBuffer st). printable c" by simp
    from step_growth [OF c assms(1,3,4) q l]
    have g: "int (length (output' st')) \<le> int (length (output' st)) + ?K"
      and l': "length (searchBuffer st') \<le> length (output' st')" by simp_all
    from step_cursor_bounds [OF c] have "position st + 1 \<le> position st'" by simp
    from mult_right_mono [OF this K] have "position st * ?K + ?K \<le> position st' * ?K"
      by (simp add: distrib_right)
    with g b have "int (length (output' st')) \<le> position st' * ?K" by linarith
    with step_cursor_bounds [OF c] step_window [OF c w q] l' step_printable [OF c p]
    show ?thesis by simp
  qed
  have "decode_loop maxLen bitStream offsetBits lengthBits init_state \<noteq> Panic"
  proof (rule decode_loop_avoids [where P = ?P])
    show "?P init_state" by (rule init)
  next
    fix st st' :: state
    assume "?P st" and "step maxLen bitStream offsetBits lengthBits st = Continue st'"
    then show "?P st'" by (rule pres)
  next
    fix st :: state
    assume "?P st" and "position st < int (length bitStream)"
    with step_no_panic [OF _ _ assms, of st maxLen]
    show "step maxLen bitStream offsetBits lengthBits st \<noteq> Done Panic" by simp
  next
    show "Panic = Panic \<or> Panic = OutOfMemory" by simp
  qed
  then have no_panic: "decodeLZ77 maxLen bitStream offsetBits lengthBits \<noteq> Panic"
    by (simp add: decodeLZ77_def)
  have returns: "\<exists>out err. decodeLZ77 maxLen bitStream offsetBits lengthBits = Returned out err"
    if m: "int (length bitStream) * ?K \<le> capacity maxLen"
  proof -
    have "decode_loop maxLen bitStream offsetBits lengthBits init_state \<noteq> OutOfMemory"
    proof (rule decode_loop_avoids [where P = ?P])
      show "?P init_state" by (rule init)
    next
      fix st st' :: state
      assume "?P st" and "step maxLen bitStream offsetBits lengthBits st = Continue st'"
      then show "?P st'" by (rule pres)
    next
      fix st :: state
      assume inv: "?P st" and h: "position st < int (length bitStream)"
      from inv have n: "0 \<le> position st"
        and w: "int (length (searchBuffer st)) \<le> max 0 (shl1 offsetBits)"
        and l: "length (searchBuffer st) \<le> length (output' st)"
        and q: "\<forall>c \<in> set (searchBuffer st). printable c"
        and b: "int (length (output' st)) \<le> position st * ?K"
        by simp_all
      from h have "position st + 1 \<le> int (length bitStream)" by simp
      from mult_right_mono [OF this K]
      have "position st * ?K + ?K \<le> int (length bitStream) * ?K" by (simp add: distrib_right)
      with b m have "int (length (output' st)) + ?K \<le> capacity maxLen" by linarith
      from step_no_exhaustion [OF n h assms w q l this]
      show "step maxLen bitStream offsetBits lengthBits st \<noteq> Done OutOfMemory" .
    next
      show "OutOfMemory = Panic \<or> OutOfMemory = OutOfMemory" by simp
    qed
    with no_panic show ?thesis
      by (cases "decode_loop maxLen bitStream offsetBits lengthBits init_state")
         (simp_all add: decodeLZ77_def)
  qed
  from no_panic returns show ?thesis by blast
qed

text \<open>
  The amended claim C9 on a stream of two literals and a back-reference, 23 bytes, with
  memory for 1024 bytes.
\<close>

theorem decode_never_panics_witness:
  "(0 :: int) \<le> 2 \<and> (2 :: int) \<le> 62 \<and> (0 :: int) \<le> 2
   \<and> int (length ''00100000100100001011011'') + 2 + 2 < 2 ^ 63
   \<and> int (length ''00100000100100001011011'') * 2 ^ nat 2 \<le> capacity 1024
   \<and> decodeLZ77 1024 ''00100000100100001011011'' 2 2 \<noteq> Panic
   \<and> (\<exists>out err. decodeLZ77 1024 ''00100000100100001011011'' 2 2 = Returned out err)"
  using decode_never_panics [of 2 2 "''00100000100100001011011''" 1024]
  by (simp add: capacity_def)

subsection \<open>Printable output\<close>

text \<open>
  Claim C10: for every bitstream and all field widths, every byte of the output that a call
  returns, with or without an error, is printable ASCII (32 to 126): a literal is appended
  only when it passes the test of line 68, and a back-reference copies bytes of the search
  buffer, which holds bytes that were appended to the output before.
\<close>

theorem decode_output_printable:
  assumes "decodeLZ77 maxLen bitStream offsetBits lengthBits = Returned out err"
  shows "\<forall>c \<in> set out. printable c"
proof -
  have "\<forall>st \<in> set (loop_heads maxLen bitStream offsetBits lengthBits init_state).
          \<forall>c \<in> set (output' st) \<union> set (searchBuffer st). printable c"
    using loop_heads_printable by blast
  moreover from assms obtain st where
    "st \<in> set (loop_heads maxLen bitStream offsetBits lengthBits init_state)" "out = output' st"
    unfolding decodeLZ77_def by (blast dest: decode_loop_returned)
  ultimately show ?thesis by blast
qed

text \<open>Claim C10 on a stream of two literals and an overlapping back-reference.\<close>

theorem decode_output_printable_witness:
  "decodeLZ77 1024 ''00100000100100001011011'' 2 2 = Returned ''ABABA'' None
   \<and> list_all printable ''ABABA''"
proof -
  have h: "decodeLZ77 1024 ''00100000100100001011011'' 2 2 = Returned ''ABABA'' None"
    by code_simp
  from decode_output_printable [OF h] h show ?thesis by (simp add: list_all_iff)
qed

end
